theory Spec2Isabelle
  imports Main "HOL-Library.Word"
begin

section \<open>The finish barrier of \<^verbatim>\<open>parallell.hpp\<close>\<close>

text \<open>
  The header defines a counting barrier (\<^verbatim>\<open>synched_t\<close>), a scope guard that posts the
  barrier's semaphore when it dies (\<^verbatim>\<open>scope_waiter\<close>), four task classes run by an
  external executor, a recursive tuple expansion (\<^verbatim>\<open>apply_obj_func\<close>) and the
  submission constructors \<^verbatim>\<open>parallel\<close>. The second half of the file repeats all of
  it outside the namespace; the submission constructors are called \<^verbatim>\<open>async\<close> there.
  The struct and class definitions of the two halves are the same text (the second
  half adds an empty, unused \<^verbatim>\<open>unsynched_t\<close>), so they are embedded once.

  Threads are modelled by interleaving: every shared access of the source is atomic
  (\<^verbatim>\<open>m_count\<close> is a \<^verbatim>\<open>tbb::atomic\<close>, the semaphore calls synchronise), so a run of
  the program is a sequence of atomic events applied to one system state.
\<close>

subsection \<open>The semaphore\<close>

type_synonym addr = nat

text \<open>
  Modelled from the spec: \<^verbatim>\<open>sem_t\<close> of \<^verbatim>\<open>semaphore.h\<close>, a counting wait primitive
  with a blocking decrement and a non-blocking increment. \<open>sem_val\<close> is the counter.
  \<open>n_post\<close> and \<open>n_wait\<close> are history counters (completed increments and completed
  decrements since \<^verbatim>\<open>sem_init\<close>); no operation reads them.
\<close>

record sem_t =
  sem_val :: nat
  n_post :: nat
  n_wait :: nat

text \<open>Modelled from the spec: \<^verbatim>\<open>sem_init\<close> sets the counter.\<close>

definition sem_init :: "nat \<Rightarrow> sem_t" where
  "sem_init v = \<lparr>sem_val = v, n_post = 0, n_wait = 0\<rparr>"

text \<open>Modelled from the spec: \<^verbatim>\<open>sem_post\<close>, the increment; it never blocks.\<close>

definition sem_post :: "sem_t \<Rightarrow> sem_t" where
  "sem_post m = m\<lparr>sem_val := Suc (sem_val m), n_post := Suc (n_post m)\<rparr>"

text \<open>
  Modelled from the spec: \<^verbatim>\<open>sem_wait\<close>, the blocking decrement. \<open>None\<close>: the counter
  is zero and the caller stays blocked.
\<close>

definition sem_wait :: "sem_t \<Rightarrow> sem_t option" where
  "sem_wait m =
     (case sem_val m of
        0 \<Rightarrow> None
      | Suc v \<Rightarrow> Some (m\<lparr>sem_val := v, n_wait := Suc (n_wait m)\<rparr>))"

subsection \<open>\<^verbatim>\<open>synched_t\<close> and \<^verbatim>\<open>scope_waiter\<close>\<close>

record synched_t =
  m_sem :: sem_t
  m_count :: "32 word"

text \<open>
  A \<^verbatim>\<open>scope_waiter\<close> holds a reference to the semaphore of a barrier; the reference is
  the address of that barrier in the store.
\<close>

record scope_waiter =
  mr_sem :: addr

type_synonym store = "addr \<Rightarrow> synched_t"

definition synched_t_ctor :: synched_t where
  "synched_t_ctor = \<lparr>m_sem = sem_init 0, m_count = 0\<rparr>"

definition scope_waiter_ctor :: "addr \<Rightarrow> scope_waiter" where
  "scope_waiter_ctor futex = \<lparr>mr_sem = futex\<rparr>"

definition scope_waiter_copy :: "scope_waiter \<Rightarrow> scope_waiter" where
  "scope_waiter_copy other = \<lparr>mr_sem = mr_sem other\<rparr>"

definition scope_waiter_dtor :: "scope_waiter \<Rightarrow> store \<Rightarrow> store" where
  "scope_waiter_dtor w h =
     h(mr_sem w := (h (mr_sem w))\<lparr>m_sem := sem_post (m_sem (h (mr_sem w)))\<rparr>)"

text \<open>
  \<^verbatim>\<open>register_lock\<close> on the barrier at address \<open>sb\<close>. The returned temporary
  initialises its destination directly (the copy is elided), so no intermediate
  \<^verbatim>\<open>scope_waiter\<close> is destroyed.
\<close>

definition register_lock :: "addr \<Rightarrow> store \<Rightarrow> scope_waiter \<times> store" where
  "register_lock sb h =
     (scope_waiter_ctor sb, h(sb := (h sb)\<lparr>m_count := m_count (h sb) + 1\<rparr>))"

subsection \<open>\<^verbatim>\<open>apply_obj_func\<close>\<close>

text \<open>
  \<^verbatim>\<open>apply_obj_func<N>::applyTuple(f, t, args...)\<close>. The tuple and the argument pack are
  lists over one type of values; \<open>f\<close> takes the whole pack. The source instantiates
  \<open>N\<close> with the size of the tuple, so \<^verbatim>\<open>std::get<N-1>\<close> is always in range there.
\<close>

fun applyTuple :: "nat \<Rightarrow> ('a list \<Rightarrow> 'r) \<Rightarrow> 'a list \<Rightarrow> 'a list \<Rightarrow> 'r" where
  "applyTuple 0 f t args = f args"
| "applyTuple (Suc n) f t args = applyTuple n f t (t ! n # args)"

subsection \<open>Tasks\<close>

text \<open>
  A callable runs on the user's state only (it does not submit tasks or touch a
  barrier) and either returns or raises. A call without arguments, \<^verbatim>\<open>m_func()\<close>, is
  the call with the empty pack.
\<close>

datatype outcome = Returns | Raises

type_synonym ('a, 'u) callable = "'a list \<Rightarrow> 'u \<Rightarrow> outcome \<times> 'u"

text \<open>
  The four task classes, with their members in the order of declaration:
  \<^verbatim>\<open>contended_caller\<close>, \<^verbatim>\<open>simple_caller\<close>, and the two local classes
  \<^verbatim>\<open>forwarded_callable\<close> (with and without a \<^verbatim>\<open>scope_waiter\<close>).
\<close>

datatype ('a, 'u) task =
    Contended_caller scope_waiter "('a, 'u) callable"
  | Simple_caller "('a, 'u) callable"
  | Forwarded_callable_sw "'a list" "('a, 'u) callable" scope_waiter
  | Forwarded_callable "'a list" "('a, 'u) callable"

definition contended_caller_ctor ::
  "addr \<Rightarrow> ('a, 'u) callable \<Rightarrow> store \<Rightarrow> ('a, 'u) task \<times> store" where
  "contended_caller_ctor sb func h =
     (case register_lock sb h of (sw, h') \<Rightarrow> (Contended_caller sw func, h'))"

definition simple_caller_ctor :: "('a, 'u) callable \<Rightarrow> ('a, 'u) task" where
  "simple_caller_ctor func = Simple_caller func"

definition forwarded_callable_sw_ctor ::
  "addr \<Rightarrow> ('a, 'u) callable \<Rightarrow> 'a list \<Rightarrow> store \<Rightarrow> ('a, 'u) task \<times> store" where
  "forwarded_callable_sw_ctor sb f p h =
     (case register_lock sb h of (sw, h') \<Rightarrow> (Forwarded_callable_sw p f sw, h'))"

definition forwarded_callable_ctor :: "('a, 'u) callable \<Rightarrow> 'a list \<Rightarrow> ('a, 'u) task" where
  "forwarded_callable_ctor f p = Forwarded_callable p f"

text \<open>\<^verbatim>\<open>execute\<close>: the outcome of the callable is the outcome of \<^verbatim>\<open>execute\<close>.\<close>

fun execute :: "('a, 'u) task \<Rightarrow> 'u \<Rightarrow> outcome \<times> 'u" where
  "execute (Contended_caller sw func) u = func [] u"
| "execute (Simple_caller func) u = func [] u"
| "execute (Forwarded_callable_sw p f sw) u = applyTuple (length p) f p [] u"
| "execute (Forwarded_callable p f) u = applyTuple (length p) f p [] u"

text \<open>The \<^verbatim>\<open>scope_waiter\<close> member of a task, if it has one.\<close>

fun task_sw :: "('a, 'u) task \<Rightarrow> scope_waiter option" where
  "task_sw (Contended_caller sw func) = Some sw"
| "task_sw (Simple_caller func) = None"
| "task_sw (Forwarded_callable_sw p f sw) = Some sw"
| "task_sw (Forwarded_callable p f) = None"

text \<open>Destroying a task destroys its members.\<close>

definition task_dtor :: "('a, 'u) task \<Rightarrow> store \<Rightarrow> store" where
  "task_dtor t h = (case task_sw t of None \<Rightarrow> h | Some sw \<Rightarrow> scope_waiter_dtor sw h)"

subsection \<open>The thread that waits\<close>

text \<open>
  The control points of \<^verbatim>\<open>wait_for_all\<close> in the one thread that drains barriers:
  about to test \<^verbatim>\<open>i < m_count\<close>, inside \<^verbatim>\<open>sem_wait\<close>, about to store
  \<^verbatim>\<open>m_count = 0\<close>, and returned.
\<close>

datatype wpc =
    Idle
  | Loop_test addr "32 word"
  | In_sem_wait addr "32 word"
  | Reset addr
  | Returned addr

definition wait_for_all :: "addr \<Rightarrow> wpc" where
  "wait_for_all a = Loop_test a 0"

definition synched_t_dtor :: "addr \<Rightarrow> wpc" where
  "synched_t_dtor a = wait_for_all a"

text \<open>One atomic step of the waiting thread; \<open>None\<close> when it cannot move.\<close>

fun wait_step :: "wpc \<Rightarrow> store \<Rightarrow> (wpc \<times> store) option" where
  "wait_step (Loop_test a i) h =
     Some (if i < m_count (h a) then In_sem_wait a i else Reset a, h)"
| "wait_step (In_sem_wait a i) h =
     (case sem_wait (m_sem (h a)) of
        None \<Rightarrow> None
      | Some m \<Rightarrow> Some (Loop_test a (i + 1), h(a := (h a)\<lparr>m_sem := m\<rparr>)))"
| "wait_step (Reset a) h = Some (Returned a, h(a := (h a)\<lparr>m_count := 0\<rparr>))"
| "wait_step Idle h = None"
| "wait_step (Returned a) h = None"

subsection \<open>The system\<close>

record ('a, 'u) sys =
  store :: store
  pool :: "('a, 'u) task list"
  user :: 'u
  waiter :: wpc

text \<open>
  Modelled from the spec: the external executor (\<^verbatim>\<open>tbb::task::spawn\<close> on a root
  task). It takes ownership of a submitted unit of work, runs any submitted unit at
  any time, calls \<^verbatim>\<open>execute\<close> once and frees the unit after execution.
\<close>

definition spawn :: "('a, 'u) task \<Rightarrow> ('a, 'u) sys \<Rightarrow> ('a, 'u) sys" where
  "spawn t s = s\<lparr>pool := pool s @ [t]\<rparr>"

text \<open>
  Modelled from the spec: the executor runs the unit at index \<open>k\<close> of its pool and frees
  it after \<^verbatim>\<open>execute\<close>, whatever the outcome. Freeing destroys the members of the task.
\<close>

definition run_task :: "nat \<Rightarrow> ('a, 'u) sys \<Rightarrow> ('a, 'u) sys option" where
  "run_task k s =
     (if k < length (pool s)
      then (case execute (pool s ! k) (user s) of
              (out, u') \<Rightarrow>
                Some (s\<lparr>store := task_dtor (pool s ! k) (store s),
                        pool := take k (pool s) @ drop (Suc k) (pool s),
                        user := u'\<rparr>))
      else None)"

text \<open>The four constructors of \<^verbatim>\<open>parallel\<close> (first half of the file).\<close>

definition parallel_sb :: "addr \<Rightarrow> ('a, 'u) callable \<Rightarrow> ('a, 'u) sys \<Rightarrow> ('a, 'u) sys" where
  "parallel_sb sb func s =
     (case contended_caller_ctor sb func (store s) of
        (cc, h') \<Rightarrow> spawn cc (s\<lparr>store := h'\<rparr>))"

definition parallel :: "('a, 'u) callable \<Rightarrow> ('a, 'u) sys \<Rightarrow> ('a, 'u) sys" where
  "parallel func s = spawn (simple_caller_ctor func) s"

definition parallel_sb_params ::
  "addr \<Rightarrow> ('a, 'u) callable \<Rightarrow> 'a list \<Rightarrow> ('a, 'u) sys \<Rightarrow> ('a, 'u) sys" where
  "parallel_sb_params sb f params s =
     (case forwarded_callable_sw_ctor sb f params (store s) of
        (sc, h') \<Rightarrow> spawn sc (s\<lparr>store := h'\<rparr>))"

definition parallel_params ::
  "('a, 'u) callable \<Rightarrow> 'a list \<Rightarrow> ('a, 'u) sys \<Rightarrow> ('a, 'u) sys" where
  "parallel_params f params s = spawn (forwarded_callable_ctor f params) s"

text \<open>The four constructors of \<^verbatim>\<open>async\<close> (second half of the file).\<close>

definition async_sb :: "addr \<Rightarrow> ('a, 'u) callable \<Rightarrow> ('a, 'u) sys \<Rightarrow> ('a, 'u) sys" where
  "async_sb sb func s =
     (case contended_caller_ctor sb func (store s) of
        (cc, h') \<Rightarrow> spawn cc (s\<lparr>store := h'\<rparr>))"

definition async :: "('a, 'u) callable \<Rightarrow> ('a, 'u) sys \<Rightarrow> ('a, 'u) sys" where
  "async func s = spawn (simple_caller_ctor func) s"

definition async_sb_params ::
  "addr \<Rightarrow> ('a, 'u) callable \<Rightarrow> 'a list \<Rightarrow> ('a, 'u) sys \<Rightarrow> ('a, 'u) sys" where
  "async_sb_params sb f params s =
     (case forwarded_callable_sw_ctor sb f params (store s) of
        (sc, h') \<Rightarrow> spawn sc (s\<lparr>store := h'\<rparr>))"

definition async_params ::
  "('a, 'u) callable \<Rightarrow> 'a list \<Rightarrow> ('a, 'u) sys \<Rightarrow> ('a, 'u) sys" where
  "async_params f params s = spawn (forwarded_callable_ctor f params) s"

text \<open>
  The atomic events of a run: the four submissions, the executor running and freeing
  the task at an index of its pool, the waiting thread calling \<^verbatim>\<open>wait_for_all\<close> or
  the destructor of a barrier, and one step of the waiting thread. A submission is
  one event: its registration is not separated from its hand-over to the executor.
\<close>

datatype ('a, 'u) event =
    Parallel_sb addr "('a, 'u) callable"
  | Parallel "('a, 'u) callable"
  | Parallel_sb_params addr "('a, 'u) callable" "'a list"
  | Parallel_params "('a, 'u) callable" "'a list"
  | Run nat
  | Call_wait addr
  | Call_dtor addr
  | Wait_step

definition in_call :: "wpc \<Rightarrow> bool" where
  "in_call w = (case w of Idle \<Rightarrow> False | Returned a \<Rightarrow> False | _ \<Rightarrow> True)"

fun step :: "('a, 'u) event \<Rightarrow> ('a, 'u) sys \<Rightarrow> ('a, 'u) sys option" where
  "step (Parallel_sb sb func) s = Some (parallel_sb sb func s)"
| "step (Parallel func) s = Some (parallel func s)"
| "step (Parallel_sb_params sb f params) s = Some (parallel_sb_params sb f params s)"
| "step (Parallel_params f params) s = Some (parallel_params f params s)"
| "step (Run k) s = run_task k s"
| "step (Call_wait a) s =
     (if in_call (waiter s) then None else Some (s\<lparr>waiter := wait_for_all a\<rparr>))"
| "step (Call_dtor a) s =
     (if in_call (waiter s) then None else Some (s\<lparr>waiter := synched_t_dtor a\<rparr>))"
| "step Wait_step s =
     (case wait_step (waiter s) (store s) of
        None \<Rightarrow> None
      | Some (w, h) \<Rightarrow> Some (s\<lparr>store := h, waiter := w\<rparr>))"

fun exec :: "('a, 'u) event list \<Rightarrow> ('a, 'u) sys \<Rightarrow> ('a, 'u) sys option" where
  "exec [] s = Some s"
| "exec (e # es) s = (case step e s of None \<Rightarrow> None | Some s' \<Rightarrow> exec es s')"

text \<open>The number of live tokens of the barrier at \<open>a\<close>: the tasks of the pool that hold one.\<close>

definition bound_to :: "addr \<Rightarrow> ('a, 'u) task \<Rightarrow> bool" where
  "bound_to a t = (case task_sw t of None \<Rightarrow> False | Some sw \<Rightarrow> mr_sem sw = a)"

definition live :: "addr \<Rightarrow> ('a, 'u) sys \<Rightarrow> nat" where
  "live a s = length (filter (bound_to a) (pool s))"

text \<open>Events that register a token on the barrier at \<open>a\<close>.\<close>

fun registers :: "addr \<Rightarrow> ('a, 'u) event \<Rightarrow> bool" where
  "registers a (Parallel_sb sb func) = (sb = a)"
| "registers a (Parallel_sb_params sb f params) = (sb = a)"
| "registers a e = False"

fun calls :: "('a, 'u) event \<Rightarrow> bool" where
  "calls (Call_wait a) = True"
| "calls (Call_dtor a) = True"
| "calls e = False"

text \<open>
  The accounting of the barrier at \<open>a\<close>: the counter equals the signals not yet consumed
  plus the live tokens, plus the decrements that a wait in progress on \<open>a\<close> has completed;
  between the last loop test and the reset of such a wait neither a signal nor a token
  is left.
\<close>

definition acct :: "addr \<Rightarrow> ('a, 'u) sys \<Rightarrow> bool" where
  "acct a s =
     (let v = sem_val (m_sem (store s a)) + live a s; c = m_count (store s a)
      in case waiter s of
           Idle \<Rightarrow> v = unat c
         | Loop_test x i \<Rightarrow> if x = a then unat i + v = unat c else v = unat c
         | In_sem_wait x i \<Rightarrow> if x = a then unat i + v = unat c \<and> i < c else v = unat c
         | Reset x \<Rightarrow> if x = a then v = 0 else v = unat c
         | Returned x \<Rightarrow> v = unat c)"

text \<open>
  The progress of one call of \<^verbatim>\<open>wait_for_all\<close> on the barrier at \<open>a\<close> that found the
  counter at \<open>c\<close> and \<open>w0\<close> completed decrements when its loop began.
\<close>

definition drains :: "addr \<Rightarrow> 32 word \<Rightarrow> nat \<Rightarrow> ('a, 'u) sys \<Rightarrow> bool" where
  "drains a c w0 s =
     (let k = m_count (store s a); w = n_wait (m_sem (store s a))
      in case waiter s of
           Idle \<Rightarrow> False
         | Loop_test x i \<Rightarrow> x = a \<and> k = c \<and> w = w0 + unat i \<and> i \<le> c
         | In_sem_wait x i \<Rightarrow> x = a \<and> k = c \<and> w = w0 + unat i \<and> i < c
         | Reset x \<Rightarrow> x = a \<and> k = c \<and> w = w0 + unat c
         | Returned x \<Rightarrow> x = a \<and> k = 0 \<and> w = w0 + unat c)"

definition waiting_on :: "addr \<Rightarrow> wpc \<Rightarrow> bool" where
  "waiting_on a w =
     (case w of
        Idle \<Rightarrow> False
      | Loop_test x i \<Rightarrow> x = a
      | In_sem_wait x i \<Rightarrow> x = a
      | Reset x \<Rightarrow> x = a
      | Returned x \<Rightarrow> False)"

text \<open>Signals minus decrements minus the counter of a semaphore never changes.\<close>

definition sem_bal :: "sem_t \<Rightarrow> int" where
  "sem_bal m = int (n_post m) - int (n_wait m) - int (sem_val m)"

text \<open>What a run shows of the barrier at \<open>a\<close>.\<close>

record obs =
  o_waiter :: wpc
  o_live :: nat
  o_count :: "32 word"
  o_val :: nat
  o_post :: nat
  o_wait :: nat

definition observe :: "addr \<Rightarrow> ('a, 'u) sys \<Rightarrow> obs" where
  "observe a s =
     \<lparr>o_waiter = waiter s, o_live = live a s, o_count = m_count (store s a),
      o_val = sem_val (m_sem (store s a)), o_post = n_post (m_sem (store s a)),
      o_wait = n_wait (m_sem (store s a))\<rparr>"

text \<open>Concrete inputs: callables on a counter, and a system with fresh barriers only.\<close>

definition tick :: "(nat, nat) callable" where
  "tick args u = (Returns, Suc u)"

definition add_all :: "(nat, nat) callable" where
  "add_all args u = (Returns, u + sum_list args)"

definition boom :: "(nat, nat) callable" where
  "boom args u = (Raises, u)"

definition sys0 :: "(nat, nat) sys" where
  "sys0 = \<lparr>store = (\<lambda>a. synched_t_ctor), pool = [], user = 0, waiter = Idle\<rparr>"

definition regs2 :: "(nat, nat) event list" where
  "regs2 = [Parallel_sb 0 tick, Parallel_sb_params 0 add_all [1, 2, 3]]"

definition sched2 :: "(nat, nat) event list" where
  "sched2 = [Wait_step, Run 0, Wait_step, Wait_step, Run 0, Wait_step, Wait_step, Wait_step]"

text \<open>Two tasks registered on the barrier at 0 and handed to the executor.\<close>

definition sys2 :: "(nat, nat) sys" where
  "sys2 = parallel_sb_params 0 add_all [1, 2, 3] (parallel_sb 0 tick sys0)"

text \<open>One task registered on the barrier at 0, and the wait on it begun.\<close>

definition sys1w :: "(nat, nat) sys" where
  "sys1w = (parallel_sb 0 boom sys0)\<lparr>waiter := wait_for_all 0\<rparr>"

text \<open>A schedule in which a second task registers while the wait is in progress.\<close>

definition race :: "(nat, nat) event list" where
  "race = [Wait_step, Parallel_sb 0 tick, Run 0, Wait_step, Wait_step, Run 0, Wait_step,
           Wait_step, Wait_step]"

text \<open>The same, with the waiting thread inside its first \<^verbatim>\<open>sem_wait\<close>.\<close>

definition sys1b :: "(nat, nat) sys" where
  "sys1b = sys1w\<lparr>waiter := In_sem_wait 0 0\<rparr>"

text \<open>One registration on the fresh barrier at 0.\<close>

definition reg0 :: "scope_waiter \<times> store" where
  "reg0 = register_lock 0 (store sys0)"

text \<open>Events by which the waiting thread enters a wait on the barrier at \<open>a\<close>.\<close>

fun calls_on :: "addr \<Rightarrow> ('a, 'u) event \<Rightarrow> bool" where
  "calls_on a (Call_wait x) = (x = a)"
| "calls_on a (Call_dtor x) = (x = a)"
| "calls_on a e = False"

text \<open>
  A run from \<open>s\<close> in which every registration on the barrier at \<open>a\<close> happens while no
  wait on \<open>a\<close> is in progress and while the counter of \<open>a\<close> is below its maximum.
\<close>

fun orderly :: "addr \<Rightarrow> ('a, 'u) event list \<Rightarrow> ('a, 'u) sys \<Rightarrow> bool" where
  "orderly a [] s = True"
| "orderly a (e # es) s =
     ((\<not> registers a e \<or> (\<not> waiting_on a (waiter s) \<and> m_count (store s a) \<noteq> - 1))
      \<and> (case step e s of None \<Rightarrow> True | Some s' \<Rightarrow> orderly a es s'))"

text \<open>
  One task is registered and the thread enters a wait by \<open>c\<close>; the task runs and the
  wait consumes its signal; between the last loop test and the reset, \<open>r\<close> registers.
\<close>

definition late :: "(nat, nat) event \<Rightarrow> (nat, nat) event \<Rightarrow> (nat, nat) event list" where
  "late c r = [Parallel_sb 0 tick, c, Wait_step, Run 0, Wait_step, Wait_step, r, Wait_step]"

text \<open>Two registrations with a run between them, and a wait that outlasts the second task.\<close>

definition before2 :: "(nat, nat) event list" where
  "before2 = [Parallel_sb 0 tick, Run 0, Parallel_sb_params 0 add_all [1, 2, 3]]"

definition during2 :: "(nat, nat) event list" where
  "during2 = [Wait_step, Wait_step, Wait_step, Run 0, Wait_step, Wait_step, Wait_step]"

text \<open>A completed wait on the barrier at 0, followed by two new registrations.\<close>

definition reuse :: "(nat, nat) event list" where
  "reuse = [Parallel_sb 0 tick, Call_wait 0, Wait_step, Run 0, Wait_step, Wait_step,
            Wait_step] @ regs2"

text \<open>A wait on the barrier at 0 while other work is submitted and run.\<close>

definition stuck :: "(nat, nat) event list" where
  "stuck = [Call_wait 0, Wait_step, Parallel tick, Run 1]"

section \<open>Argument binding\<close>

lemma applyTuple_take:
  "n \<le> length t \<Longrightarrow> applyTuple n f t args = f (take n t @ args)"
proof (induction n arbitrary: args)
  case 0
  then show ?case by simp
next
  case (Suc n)
  then have "applyTuple (Suc n) f t args = f (take n t @ t ! n # args)"
    by simp
  also have "take n t @ t ! n # args = take (Suc n) t @ args"
    using Suc.prems by (simp add: take_Suc_conv_app_nth)
  finally show ?case .
qed

text \<open>
  C7. A task built from a callable \<open>f\<close> and a pack of any length, tracked or not,
  calls \<open>f\<close> on exactly the stored values in their order when it is executed, whatever
  the user's state and the store have become by then; for three values the expansion
  ends in the call \<open>f [a, b, c]\<close>.
\<close>

theorem applyTuple_round_trip:
  "applyTuple (length params) f params [] = f params
   \<and> applyTuple 3 f [a, b, c] [] = f [a, b, c]
   \<and> execute (forwarded_callable_ctor g params) u = g params u
   \<and> execute (fst (forwarded_callable_sw_ctor sb g params h)) u = g params u"
  by (simp add: applyTuple_take forwarded_callable_ctor_def forwarded_callable_sw_ctor_def
      register_lock_def numeral_3_eq_3)

section \<open>The accounting invariant\<close>

lemma live_spawn:
  "live a (spawn t s) = live a s + (if bound_to a t then 1 else 0)"
  by (simp add: live_def spawn_def)

lemma filter_remove_nth:
  "k < length xs \<Longrightarrow>
   length (filter P (take k xs @ drop (Suc k) xs)) + (if P (xs ! k) then 1 else 0)
     = length (filter P xs)"
proof -
  assume k: "k < length xs"
  have "xs = take k xs @ xs ! k # drop (Suc k) xs"
    using k by (rule id_take_nth_drop)
  then have "length (filter P xs) = length (filter P (take k xs @ xs ! k # drop (Suc k) xs))"
    by simp
  then show ?thesis by simp
qed

lemma run_task_Some:
  "run_task k s = Some s' \<Longrightarrow>
   k < length (pool s) \<and> waiter s' = waiter s
   \<and> store s' = task_dtor (pool s ! k) (store s)
   \<and> pool s' = take k (pool s) @ drop (Suc k) (pool s)"
  by (auto simp: run_task_def split: if_splits prod.splits)

lemma run_task_live:
  "run_task k s = Some s' \<Longrightarrow>
   live a s' + (if bound_to a (pool s ! k) then 1 else 0) = live a s"
  using filter_remove_nth [of k "pool s" "bound_to a"]
  by (auto dest!: run_task_Some simp: live_def)

lemma task_dtor_bound:
  "bound_to a t \<Longrightarrow>
   task_dtor t h = h(a := (h a)\<lparr>m_sem := sem_post (m_sem (h a))\<rparr>)"
  by (auto simp: bound_to_def task_dtor_def scope_waiter_dtor_def split: option.splits)

lemma task_dtor_other:
  "\<not> bound_to a t \<Longrightarrow> task_dtor t h a = h a"
  by (auto simp: bound_to_def task_dtor_def scope_waiter_dtor_def split: option.splits)

lemma acct_cong:
  "store s' a = store s a \<Longrightarrow> live a s' = live a s \<Longrightarrow> waiter s' = waiter s \<Longrightarrow>
   acct a s' = acct a s"
  by (simp add: acct_def)

lemma run_task_acct:
  assumes "run_task k s = Some s'" "acct a s"
  shows "acct a s'"
proof (cases "bound_to a (pool s ! k)")
  case True
  from assms(1) have w: "waiter s' = waiter s"
    and st: "store s' = task_dtor (pool s ! k) (store s)"
    by (auto dest: run_task_Some)
  from run_task_live [OF assms(1), of a] True have l: "live a s = Suc (live a s')" by simp
  from st True have "store s' a = (store s a)\<lparr>m_sem := sem_post (m_sem (store s a))\<rparr>"
    by (simp add: task_dtor_bound)
  then have v: "sem_val (m_sem (store s' a)) = Suc (sem_val (m_sem (store s a)))"
    and c: "m_count (store s' a) = m_count (store s a)"
    by (simp_all add: sem_post_def)
  from assms(2) show ?thesis
    unfolding acct_def Let_def w l v c by (cases "waiter s") (simp_all split: if_splits)
next
  case False
  from assms(1) have w: "waiter s' = waiter s"
    and st: "store s' = task_dtor (pool s ! k) (store s)"
    by (auto dest: run_task_Some)
  from run_task_live [OF assms(1), of a] False have l: "live a s' = live a s" by simp
  from st False have "store s' a = store s a" by (simp add: task_dtor_other)
  with l w assms(2) show ?thesis using acct_cong [of s' a s] by simp
qed

lemma unat_succ_less:
  fixes i c :: "32 word"
  assumes "i < c"
  shows "unat (i + 1) = Suc (unat i)"
proof -
  from assms have "unat i < unat c" by (simp add: word_less_nat_alt)
  moreover have "unat c < 2 ^ 32" using unsigned_less [of c] by simp
  ultimately have "Suc (unat i) < 2 ^ 32" by simp
  then have "unat (i + 1) = unat i + 1"
    by (simp add: unat_word_ariths)
  then show ?thesis by simp
qed

lemma wait_step_acct:
  assumes "step Wait_step s = Some s'" "acct a s"
  shows "acct a s'"
proof (cases "waiter s")
  case Idle
  with assms(1) show ?thesis by simp
next
  case (Returned x)
  with assms(1) show ?thesis by simp
next
  case (Loop_test x i)
  with assms(1) have s': "s' = s\<lparr>store := store s,
      waiter := (if i < m_count (store s x) then In_sem_wait x i else Reset x)\<rparr>"
    by auto
  have l: "live a s' = live a s" by (simp add: s' live_def)
  show ?thesis
  proof (cases "x = a")
    case True
    with assms(2) Loop_test show ?thesis
      unfolding acct_def Let_def l by (auto simp: s' word_less_nat_alt)
  next
    case False
    with assms(2) Loop_test show ?thesis
      unfolding acct_def Let_def l by (simp add: s')
  qed
next
  case (In_sem_wait x i)
  with assms(1) obtain m where m: "sem_wait (m_sem (store s x)) = Some m"
    and s': "s' = s\<lparr>store := (store s)(x := (store s x)\<lparr>m_sem := m\<rparr>),
      waiter := Loop_test x (i + 1)\<rparr>"
    by (auto split: option.splits)
  have l: "live a s' = live a s" by (simp add: s' live_def)
  from m have v: "sem_val (m_sem (store s x)) = Suc (sem_val m)"
    by (auto simp: sem_wait_def split: nat.splits)
  show ?thesis
  proof (cases "x = a")
    case True
    with assms(2) In_sem_wait have "unat i + (sem_val (m_sem (store s a)) + live a s)
        = unat (m_count (store s a))" and lt: "i < m_count (store s a)"
      by (simp_all add: acct_def Let_def)
    with v True have "unat (i + 1) + (sem_val m + live a s) = unat (m_count (store s a))"
      by (simp add: unat_succ_less [OF lt])
    with True show ?thesis
      unfolding acct_def Let_def l by (simp add: s')
  next
    case False
    with assms(2) In_sem_wait show ?thesis
      unfolding acct_def Let_def l by (simp add: s')
  qed
next
  case (Reset x)
  with assms(1) have s': "s' = s\<lparr>store := (store s)(x := (store s x)\<lparr>m_count := 0\<rparr>),
      waiter := Returned x\<rparr>"
    by auto
  have l: "live a s' = live a s" by (simp add: s' live_def)
  from assms(2) Reset show ?thesis
    unfolding acct_def Let_def l by (cases "x = a") (simp_all add: s')
qed

lemma call_acct:
  assumes "\<not> in_call (waiter s)" "acct a s"
  shows "acct a (s\<lparr>waiter := Loop_test x 0\<rparr>)"
proof -
  have l: "live a (s\<lparr>waiter := Loop_test x 0\<rparr>) = live a s" by (simp add: live_def)
  from assms show ?thesis
    unfolding acct_def Let_def l
    by (cases "waiter s") (auto simp: in_call_def split: if_splits)
qed

lemma live_append:
  "live a (s\<lparr>store := h, pool := pool s @ [t]\<rparr>) = live a s + (if bound_to a t then 1 else 0)"
  by (simp add: live_def)

lemma submit_acct:
  assumes "\<not> registers a e" "\<not> calls e" "e \<noteq> Wait_step" "\<forall>k. e \<noteq> Run k"
    "step e s = Some s'" "acct a s"
  shows "acct a s'"
proof -
  from assms(1-5) have "store s' a = store s a \<and> live a s' = live a s \<and> waiter s' = waiter s"
    by (cases e)
      (auto simp: parallel_sb_def parallel_def parallel_sb_params_def parallel_params_def
        contended_caller_ctor_def simple_caller_ctor_def forwarded_callable_sw_ctor_def
        forwarded_callable_ctor_def register_lock_def scope_waiter_ctor_def spawn_def
        live_def bound_to_def)
  with assms(6) show ?thesis using acct_cong [of s' a s] by simp
qed

lemma step_acct:
  assumes "\<not> registers a e" "step e s = Some s'" "acct a s"
  shows "acct a s'"
proof (cases e)
  case (Run k)
  with assms show ?thesis by (simp add: run_task_acct)
next
  case (Call_wait x)
  with assms show ?thesis
    by (auto simp: wait_for_all_def call_acct split: if_splits)
next
  case (Call_dtor x)
  with assms show ?thesis
    by (auto simp: synched_t_dtor_def wait_for_all_def call_acct split: if_splits)
next
  case Wait_step
  with assms show ?thesis by (simp add: wait_step_acct)
next
  case (Parallel_sb sb func)
  then have "\<not> calls e" "e \<noteq> Wait_step" "\<forall>k. e \<noteq> Run k" by simp_all
  with assms show ?thesis using submit_acct [of a e s s'] by blast
next
  case (Parallel func)
  then have "\<not> calls e" "e \<noteq> Wait_step" "\<forall>k. e \<noteq> Run k" by simp_all
  with assms show ?thesis using submit_acct [of a e s s'] by blast
next
  case (Parallel_sb_params sb f params)
  then have "\<not> calls e" "e \<noteq> Wait_step" "\<forall>k. e \<noteq> Run k" by simp_all
  with assms show ?thesis using submit_acct [of a e s s'] by blast
next
  case (Parallel_params f params)
  then have "\<not> calls e" "e \<noteq> Wait_step" "\<forall>k. e \<noteq> Run k" by simp_all
  with assms show ?thesis using submit_acct [of a e s s'] by blast
qed

lemma exec_acct:
  "\<forall>e \<in> set evs. \<not> registers a e \<Longrightarrow> exec evs s = Some s' \<Longrightarrow> acct a s \<Longrightarrow> acct a s'"
proof (induction evs arbitrary: s)
  case Nil
  then show ?case by simp
next
  case (Cons e evs)
  from Cons.prems(2) obtain s1 where s1: "step e s = Some s1" and r: "exec evs s1 = Some s'"
    by (auto split: option.splits)
  from Cons.prems(1) have "\<not> registers a e" by simp
  then have "acct a s1" using s1 Cons.prems(3) by (rule step_acct)
  with Cons.IH [of s1] Cons.prems(1) r show ?case by simp
qed

section \<open>The waiting thread alone\<close>

lemma exec_append:
  "exec (xs @ ys) s = (case exec xs s of None \<Rightarrow> None | Some s1 \<Rightarrow> exec ys s1)"
  by (induction xs arbitrary: s) (auto split: option.splits)

lemma sem_wait_pos:
  "0 < sem_val m \<Longrightarrow>
   sem_wait m = Some (m\<lparr>sem_val := sem_val m - 1, n_wait := Suc (n_wait m)\<rparr>)"
  by (cases "sem_val m") (simp_all add: sem_wait_def)

lemma sem_wait_zero: "sem_val m = 0 \<Longrightarrow> sem_wait m = None"
  by (simp add: sem_wait_def)

lemma drain_solo:
  "waiter s = Loop_test a i \<Longrightarrow>
   unat i + sem_val (m_sem (store s a)) = unat (m_count (store s a)) \<Longrightarrow>
   \<exists>s'. exec (replicate (2 * sem_val (m_sem (store s a)) + 2) Wait_step) s = Some s'
        \<and> waiter s' = Returned a"
proof (induction "sem_val (m_sem (store s a))" arbitrary: s i)
  case 0
  then have "\<not> i < m_count (store s a)" by (simp add: word_less_nat_alt)
  with 0 show ?case by (simp add: numeral_2_eq_2)
next
  case (Suc v)
  let ?m = "(m_sem (store s a))\<lparr>sem_val := v, n_wait := Suc (n_wait (m_sem (store s a)))\<rparr>"
  let ?s2 = "s\<lparr>store := (store s)(a := (store s a)\<lparr>m_sem := ?m\<rparr>), waiter := Loop_test a (i + 1)\<rparr>"
  from Suc.hyps(2) Suc.prems have lt: "i < m_count (store s a)"
    by (simp add: word_less_nat_alt)
  have sw: "sem_wait (m_sem (store s a)) = Some ?m"
    using Suc.hyps(2) by (simp add: sem_wait_def split: nat.splits)
  have two: "exec [Wait_step, Wait_step] s = Some ?s2"
    using Suc.prems(1) lt sw by simp
  have "\<exists>s'. exec (replicate (2 * sem_val (m_sem (store ?s2 a)) + 2) Wait_step) ?s2 = Some s'
        \<and> waiter s' = Returned a"
  proof (rule Suc.hyps(1))
    show "v = sem_val (m_sem (store ?s2 a))" by simp
    show "waiter ?s2 = Loop_test a (i + 1)" by simp
    show "unat (i + 1) + sem_val (m_sem (store ?s2 a)) = unat (m_count (store ?s2 a))"
      using Suc.hyps(2) Suc.prems(2) by (simp add: unat_succ_less [OF lt])
  qed
  then obtain s' where s': "exec (replicate (2 * v + 2) Wait_step) ?s2 = Some s'"
    and r: "waiter s' = Returned a" by auto
  have "replicate (2 * Suc v + 2) Wait_step
      = [Wait_step, Wait_step] @ replicate (2 * v + 2) (Wait_step :: ('a, 'b) event)"
    by (simp add: numeral_2_eq_2)
  then have "exec (replicate (2 * Suc v + 2) Wait_step) s = Some s'"
    using two s' by (simp only: exec_append option.case)
  with r Suc.hyps(2) show ?case by (metis)
qed

lemma drain_finishes:
  assumes "acct a s" "waiting_on a (waiter s)" "live a s = 0"
  shows "\<exists>n s'. exec (replicate n Wait_step) s = Some s' \<and> waiter s' = Returned a"
proof (cases "waiter s")
  case Idle
  with assms(2) show ?thesis by (simp add: waiting_on_def)
next
  case (Returned x)
  with assms(2) show ?thesis by (simp add: waiting_on_def)
next
  case (Loop_test x i)
  with assms(2) have x: "x = a" by (simp add: waiting_on_def)
  with assms(1,3) Loop_test
  have "unat i + sem_val (m_sem (store s a)) = unat (m_count (store s a))"
    by (simp add: acct_def Let_def)
  with Loop_test x drain_solo [of s a i] show ?thesis by blast
next
  case (In_sem_wait x i)
  with assms(2) have x: "x = a" by (simp add: waiting_on_def)
  with assms(1,3) In_sem_wait
  have e: "unat i + sem_val (m_sem (store s a)) = unat (m_count (store s a))"
    and lt: "i < m_count (store s a)"
    by (simp_all add: acct_def Let_def)
  then have "sem_val (m_sem (store s a)) \<noteq> 0" by (auto simp: word_less_nat_alt)
  then obtain m where m: "sem_wait (m_sem (store s a)) = Some m"
    using sem_wait_pos [of "m_sem (store s a)"] by simp
  then obtain s1 where s1: "step Wait_step s = Some s1" and w1: "waiter s1 = Loop_test a (i + 1)"
    using In_sem_wait x by auto
  from s1 assms(1) have a1: "acct a s1" by (rule wait_step_acct)
  from s1 In_sem_wait x m have "live a s1 = live a s" by (auto simp: live_def)
  with a1 w1 assms(3)
  have "unat (i + 1) + sem_val (m_sem (store s1 a)) = unat (m_count (store s1 a))"
    by (simp add: acct_def Let_def)
  with w1 drain_solo [of s1 a "i + 1"] obtain s' n
    where "exec (replicate n Wait_step) s1 = Some s'" "waiter s' = Returned a" by blast
  with s1 have "exec (replicate (Suc n) Wait_step) s = Some s' \<and> waiter s' = Returned a"
    by simp
  then show ?thesis by blast
next
  case (Reset x)
  with assms(2) have x: "x = a" by (simp add: waiting_on_def)
  with Reset have "exec (replicate 1 Wait_step) s
      = Some (s\<lparr>store := (store s)(a := (store s a)\<lparr>m_count := 0\<rparr>), waiter := Returned a\<rparr>)"
    by simp
  then show ?thesis by (metis sys.select_convs(4) sys.surjective sys.update_convs(1,4))
qed

section \<open>Registration and signals\<close>

lemma step_registers:
  assumes "registers a e"
  shows "\<exists>s'. step e s = Some s'
    \<and> store s' a = (store s a)\<lparr>m_count := m_count (store s a) + 1\<rparr>
    \<and> live a s' = Suc (live a s) \<and> waiter s' = waiter s"
  using assms
  by (cases e)
    (simp_all add: parallel_sb_def parallel_sb_params_def contended_caller_ctor_def
      forwarded_callable_sw_ctor_def register_lock_def scope_waiter_ctor_def spawn_def
      live_def bound_to_def)

lemma exec_registers:
  "\<forall>e \<in> set regs. registers a e \<Longrightarrow>
   \<exists>s1. exec regs s = Some s1
     \<and> store s1 a = (store s a)\<lparr>m_count := m_count (store s a) + of_nat (length regs)\<rparr>
     \<and> live a s1 = live a s + length regs \<and> waiter s1 = waiter s"
proof (induction regs arbitrary: s)
  case Nil
  then show ?case by simp
next
  case (Cons e regs)
  then have "registers a e" by simp
  from step_registers [OF this, of s] obtain s' where s': "step e s = Some s'"
    and st: "store s' a = (store s a)\<lparr>m_count := m_count (store s a) + 1\<rparr>"
    and l: "live a s' = Suc (live a s)" and w: "waiter s' = waiter s" by blast
  from Cons.prems have "\<forall>e \<in> set regs. registers a e" by simp
  from Cons.IH [OF this, of s'] obtain s1 where s1: "exec regs s' = Some s1"
    and st1: "store s1 a = (store s' a)\<lparr>m_count := m_count (store s' a) + of_nat (length regs)\<rparr>"
    and l1: "live a s1 = live a s' + length regs" and w1: "waiter s1 = waiter s'" by blast
  have "exec (e # regs) s = Some s1" using s' s1 by simp
  moreover have "store s1 a
      = (store s a)\<lparr>m_count := m_count (store s a) + of_nat (length (e # regs))\<rparr>"
    using st st1 by (simp add: add.assoc add.commute)
  moreover have "live a s1 = live a s + length (e # regs)" using l l1 by simp
  moreover have "waiter s1 = waiter s" using w w1 by simp
  ultimately show ?case by blast
qed

lemma step_posted:
  assumes "\<not> registers a e" "step e s = Some s'"
  shows "n_post (m_sem (store s' a)) + live a s' = n_post (m_sem (store s a)) + live a s"
proof (cases e)
  case (Run k)
  with assms(2) have r: "run_task k s = Some s'" by simp
  then have st: "store s' = task_dtor (pool s ! k) (store s)" by (auto dest: run_task_Some)
  show ?thesis
  proof (cases "bound_to a (pool s ! k)")
    case True
    with run_task_live [OF r, of a] have "live a s = Suc (live a s')" by simp
    moreover from st True have "n_post (m_sem (store s' a)) = Suc (n_post (m_sem (store s a)))"
      by (simp add: task_dtor_bound sem_post_def)
    ultimately show ?thesis by simp
  next
    case False
    with run_task_live [OF r, of a] have "live a s' = live a s" by simp
    moreover from st False have "store s' a = store s a" by (simp add: task_dtor_other)
    ultimately show ?thesis by simp
  qed
next
  case Wait_step
  with assms(2) show ?thesis
    by (cases "waiter s")
      (auto simp: live_def sem_wait_def split: option.splits nat.splits if_splits)
next
  case (Call_wait x)
  with assms(2) show ?thesis by (auto simp: live_def split: if_splits)
next
  case (Call_dtor x)
  with assms(2) show ?thesis by (auto simp: live_def split: if_splits)
next
  case (Parallel_sb sb func)
  with assms show ?thesis
    by (auto simp: parallel_sb_def contended_caller_ctor_def register_lock_def
        scope_waiter_ctor_def spawn_def live_def bound_to_def)
next
  case (Parallel func)
  with assms show ?thesis
    by (auto simp: parallel_def simple_caller_ctor_def spawn_def live_def bound_to_def)
next
  case (Parallel_sb_params sb f params)
  with assms show ?thesis
    by (auto simp: parallel_sb_params_def forwarded_callable_sw_ctor_def register_lock_def
        scope_waiter_ctor_def spawn_def live_def bound_to_def)
next
  case (Parallel_params f params)
  with assms show ?thesis
    by (auto simp: parallel_params_def forwarded_callable_ctor_def spawn_def live_def
        bound_to_def)
qed

lemma exec_posted:
  "\<forall>e \<in> set evs. \<not> registers a e \<Longrightarrow> exec evs s = Some s' \<Longrightarrow>
   n_post (m_sem (store s' a)) + live a s' = n_post (m_sem (store s a)) + live a s"
proof (induction evs arbitrary: s)
  case Nil
  then show ?case by simp
next
  case (Cons e evs)
  from Cons.prems(2) obtain s1 where s1: "step e s = Some s1" and r: "exec evs s1 = Some s'"
    by (auto split: option.splits)
  from Cons.prems(1) have "\<not> registers a e" by simp
  from step_posted [OF this s1] Cons.IH [of s1] Cons.prems(1) r show ?case by simp
qed

section \<open>Fact collections\<close>

lemmas submit_defs = parallel_sb_def parallel_def parallel_sb_params_def parallel_params_def
  contended_caller_ctor_def simple_caller_ctor_def forwarded_callable_sw_ctor_def
  forwarded_callable_ctor_def register_lock_def scope_waiter_ctor_def spawn_def

lemmas run_defs = run_task_def task_dtor_def scope_waiter_dtor_def sem_post_def sem_wait_def
  wait_for_all_def synched_t_dtor_def in_call_def

lemmas demo_defs = sys0_def synched_t_ctor_def sem_init_def tick_def add_all_def boom_def
  regs2_def sched2_def observe_def live_def bound_to_def

lemmas demo2_defs = sys2_def sys1w_def race_def

section \<open>What one call of \<^verbatim>\<open>wait_for_all\<close> consumes\<close>

lemma task_dtor_frame:
  "m_count (task_dtor t h a) = m_count (h a)
   \<and> n_wait (m_sem (task_dtor t h a)) = n_wait (m_sem (h a))
   \<and> sem_bal (m_sem (task_dtor t h a)) = sem_bal (m_sem (h a))"
  by (simp add: task_dtor_def scope_waiter_dtor_def sem_post_def sem_bal_def
      split: option.splits)

lemma submit_frame:
  assumes "\<not> registers a e" "\<not> calls e" "e \<noteq> Wait_step" "\<forall>k. e \<noteq> Run k"
    "step e s = Some s'"
  shows "store s' a = store s a \<and> waiter s' = waiter s"
  using assms by (cases e) (auto simp: submit_defs)

lemma submit_sem:
  assumes "\<not> calls e" "e \<noteq> Wait_step" "\<forall>k. e \<noteq> Run k" "step e s = Some s'"
  shows "m_sem (store s' a) = m_sem (store s a)"
  using assms by (cases e) (auto simp: submit_defs)

lemma word_succ_le:
  fixes i c :: "32 word"
  assumes "i < c"
  shows "i + 1 \<le> c"
  using assms unat_succ_less [OF assms] by (simp add: word_le_nat_alt word_less_nat_alt)

lemma wait_step_drains:
  assumes "step Wait_step s = Some s'" "drains a c w0 s"
  shows "drains a c w0 s'"
proof (cases "waiter s")
  case Idle
  with assms(1) show ?thesis by simp
next
  case (Returned x)
  with assms(1) show ?thesis by simp
next
  case (Loop_test x i)
  with assms(2) have x: "x = a" and k: "m_count (store s a) = c"
    and w: "n_wait (m_sem (store s a)) = w0 + unat i" and le: "i \<le> c"
    by (simp_all add: drains_def Let_def)
  from assms(1) Loop_test x k
  have s': "s' = s\<lparr>store := store s, waiter := (if i < c then In_sem_wait a i else Reset a)\<rparr>"
    by auto
  show ?thesis
  proof (cases "i < c")
    case True
    with k w show ?thesis by (simp add: drains_def s')
  next
    case False
    with le have "i = c" by simp
    with k w False show ?thesis by (simp add: drains_def s')
  qed
next
  case (In_sem_wait x i)
  with assms(2) have x: "x = a" and k: "m_count (store s a) = c"
    and w: "n_wait (m_sem (store s a)) = w0 + unat i" and lt: "i < c"
    by (simp_all add: drains_def Let_def)
  from assms(1) In_sem_wait x obtain m where m: "sem_wait (m_sem (store s a)) = Some m"
    and s': "s' = s\<lparr>store := (store s)(a := (store s a)\<lparr>m_sem := m\<rparr>),
      waiter := Loop_test a (i + 1)\<rparr>"
    by (auto split: option.splits)
  from m have "n_wait m = Suc (n_wait (m_sem (store s a)))"
    by (auto simp: sem_wait_def split: nat.splits)
  with k w show ?thesis
    by (simp add: drains_def s' unat_succ_less [OF lt] word_succ_le [OF lt])
next
  case (Reset x)
  with assms(2) have x: "x = a" and k: "m_count (store s a) = c"
    and w: "n_wait (m_sem (store s a)) = w0 + unat c"
    by (simp_all add: drains_def Let_def)
  from assms(1) Reset x
  have s': "s' = s\<lparr>store := (store s)(a := (store s a)\<lparr>m_count := 0\<rparr>),
      waiter := Returned a\<rparr>"
    by auto
  from w show ?thesis by (simp add: drains_def s')
qed

lemma drains_cong:
  "m_count (store s' a) = m_count (store s a) \<Longrightarrow>
   n_wait (m_sem (store s' a)) = n_wait (m_sem (store s a)) \<Longrightarrow>
   waiter s' = waiter s \<Longrightarrow> drains a c w0 s' = drains a c w0 s"
  by (simp add: drains_def)

lemma step_drains:
  assumes "\<not> registers a e" "\<not> calls e" "step e s = Some s'" "drains a c w0 s"
  shows "drains a c w0 s'"
proof (cases "e = Wait_step")
  case True
  with assms(3,4) show ?thesis by (simp add: wait_step_drains)
next
  case nw: False
  show ?thesis
  proof (cases "\<exists>k. e = Run k")
    case True
    then obtain k where "e = Run k" by blast
    with assms(3) have w: "waiter s' = waiter s"
      and st: "store s' = task_dtor (pool s ! k) (store s)"
      by (auto dest: run_task_Some)
    from st have "m_count (store s' a) = m_count (store s a)"
      and "n_wait (m_sem (store s' a)) = n_wait (m_sem (store s a))"
      by (simp_all add: task_dtor_frame)
    with w assms(4) show ?thesis using drains_cong [of s' a s c w0] by simp
  next
    case False
    then have "\<forall>k. e \<noteq> Run k" by simp
    from submit_frame [OF assms(1,2) nw this assms(3)] assms(4)
    show ?thesis using drains_cong [of s' a s c w0] by simp
  qed
qed

lemma exec_drains:
  "\<forall>e \<in> set evs. \<not> registers a e \<and> \<not> calls e \<Longrightarrow> exec evs s = Some s' \<Longrightarrow>
   drains a c w0 s \<Longrightarrow> drains a c w0 s'"
proof (induction evs arbitrary: s)
  case Nil
  then show ?case by simp
next
  case (Cons e evs)
  from Cons.prems(2) obtain s1 where s1: "step e s = Some s1" and r: "exec evs s1 = Some s'"
    by (auto split: option.splits)
  from Cons.prems(1) have "\<not> registers a e" "\<not> calls e" by simp_all
  from step_drains [OF this s1 Cons.prems(3)] Cons.IH [of s1] Cons.prems(1) r
  show ?case by simp
qed

lemma step_bal:
  assumes "step e s = Some s'"
  shows "sem_bal (m_sem (store s' a)) = sem_bal (m_sem (store s a))"
proof (cases e)
  case (Run k)
  with assms have "store s' = task_dtor (pool s ! k) (store s)" by (auto dest: run_task_Some)
  then show ?thesis by (simp add: task_dtor_frame)
next
  case Wait_step
  with assms show ?thesis
    by (cases "waiter s")
      (auto simp: sem_wait_def sem_bal_def split: option.splits nat.splits if_splits)
next
  case (Call_wait x)
  with assms show ?thesis by (auto split: if_splits)
next
  case (Call_dtor x)
  with assms show ?thesis by (auto split: if_splits)
next
  case (Parallel_sb sb func)
  with assms show ?thesis using submit_sem [of e s s' a] by simp
next
  case (Parallel func)
  with assms show ?thesis using submit_sem [of e s s' a] by simp
next
  case (Parallel_sb_params sb f params)
  with assms show ?thesis using submit_sem [of e s s' a] by simp
next
  case (Parallel_params f params)
  with assms show ?thesis using submit_sem [of e s s' a] by simp
qed

lemma exec_bal:
  "exec evs s = Some s' \<Longrightarrow> sem_bal (m_sem (store s' a)) = sem_bal (m_sem (store s a))"
proof (induction evs arbitrary: s)
  case Nil
  then show ?case by simp
next
  case (Cons e evs)
  from Cons.prems obtain s1 where s1: "step e s = Some s1" and r: "exec evs s1 = Some s'"
    by (auto split: option.splits)
  from step_bal [OF s1, of a] Cons.IH [OF r] show ?case by simp
qed

text \<open>
  C2 (amended). A call of \<^verbatim>\<open>wait_for_all\<close> on the barrier at \<open>a\<close> begins its loop, and
  while it is in progress nothing registers on \<open>a\<close>. When the call has returned, it has
  completed one \<^verbatim>\<open>sem_wait\<close> per unit that the counter held when the loop began, the
  counter is zero, and the semaphore had that many signals to give: its counter at the
  start plus the posts received since equal those decrements plus what is left. With
  the counter at zero the call returns in two steps, neither of them a decrement, and
  changes nothing.
\<close>

theorem wait_for_all_decrements:
  assumes "waiter s = wait_for_all a"
    and "\<forall>e \<in> set evs. \<not> registers a e \<and> \<not> calls e"
    and "exec evs s = Some s'" "waiter s' = Returned a"
  shows "n_wait (m_sem (store s' a))
           = n_wait (m_sem (store s a)) + unat (m_count (store s a))
       \<and> m_count (store s' a) = 0
       \<and> sem_val (m_sem (store s a)) + n_post (m_sem (store s' a))
           = n_post (m_sem (store s a)) + unat (m_count (store s a))
             + sem_val (m_sem (store s' a))
       \<and> (m_count (store s a) = 0 \<longrightarrow>
            exec [Wait_step, Wait_step] s = Some (s\<lparr>waiter := Returned a\<rparr>))"
proof -
  let ?c = "m_count (store s a)" and ?w0 = "n_wait (m_sem (store s a))"
  have "drains a ?c ?w0 s"
    using assms(1) by (simp add: drains_def wait_for_all_def)
  from exec_drains [OF assms(2,3) this] assms(4)
  have A: "n_wait (m_sem (store s' a)) = ?w0 + unat ?c" and B: "m_count (store s' a) = 0"
    by (simp_all add: drains_def Let_def)
  have C: "sem_val (m_sem (store s a)) + n_post (m_sem (store s' a))
      = n_post (m_sem (store s a)) + unat ?c + sem_val (m_sem (store s' a))"
    using exec_bal [OF assms(3), of a] A unfolding sem_bal_def by linarith
  have D: "exec [Wait_step, Wait_step] s = Some (s\<lparr>waiter := Returned a\<rparr>)" if z: "?c = 0"
  proof -
    have "(store s)(a := (store s a)\<lparr>m_count := 0\<rparr>) = store s"
      using z by (simp add: fun_eq_iff)
    then show ?thesis using assms(1) z by (simp add: wait_for_all_def)
  qed
  from A B C D show ?thesis by blast
qed

text \<open>Two tasks registered when the loop begins: two decrements, counter reset.\<close>

theorem wait_for_all_decrements_witness:
  "map_option (observe 0) (exec sched2 (sys2\<lparr>waiter := wait_for_all 0\<rparr>))
   = Some \<lparr>o_waiter = Returned 0, o_live = 0, o_count = 0, o_val = 0, o_post = 2, o_wait = 2\<rparr>"
proof -
  let ?s = "sys2\<lparr>waiter := wait_for_all 0\<rparr>"
  have "\<exists>s'. exec sched2 ?s = Some s' \<and> waiter s' = Returned 0
      \<and> live 0 s' = 0 \<and> sem_val (m_sem (store s' 0)) = 0
      \<and> n_post (m_sem (store s' 0)) = 2"
    by (simp add: demo_defs demo2_defs submit_defs run_defs)
  then obtain s' where e: "exec sched2 ?s = Some s'"
    and w: "waiter s' = Returned 0" and l: "live 0 s' = 0"
    and v: "sem_val (m_sem (store s' 0)) = 0" and p: "n_post (m_sem (store s' 0)) = 2"
    by blast
  have h1: "waiter ?s = wait_for_all 0" by simp
  have h2: "\<forall>e \<in> set sched2. \<not> registers 0 e \<and> \<not> calls e" by (simp add: sched2_def)
  have "m_count (store ?s 0) = 2 \<and> n_wait (m_sem (store ?s 0)) = 0"
    by (simp add: demo_defs demo2_defs submit_defs)
  with wait_for_all_decrements [OF h1 h2 e w]
  have "n_wait (m_sem (store s' 0)) = 2 \<and> m_count (store s' 0) = 0" by simp
  with e w l v p show ?thesis by (simp add: observe_def)
qed

text \<open>
  The loop reads the counter at every test. One task is registered when the loop
  begins; a second one registers while the thread is inside its first \<^verbatim>\<open>sem_wait\<close>;
  the call then completes two decrements, not one.
\<close>

theorem wait_for_all_rereads_counter_counterexample:
  "map_option (observe 0) (exec [Parallel_sb 0 tick, Call_wait 0] sys0)
     = Some \<lparr>o_waiter = Loop_test 0 0, o_live = 1, o_count = 1, o_val = 0, o_post = 0,
         o_wait = 0\<rparr>
   \<and> map_option (observe 0) (exec ([Parallel_sb 0 tick, Call_wait 0] @ race) sys0)
     = Some \<lparr>o_waiter = Returned 0, o_live = 0, o_count = 0, o_val = 0, o_post = 2,
         o_wait = 2\<rparr>"
  by (simp add: demo_defs demo2_defs submit_defs run_defs)

section \<open>Registration\<close>

text \<open>
  C3. \<^verbatim>\<open>register_lock\<close> on the barrier at \<open>sb\<close> returns a newly constructed token that
  refers to the semaphore of that barrier and adds exactly one to its counter (in the
  arithmetic of the 32-bit counter); it leaves the semaphore of the barrier as it was,
  so it signals nothing, and it leaves every other barrier as it was. It is a total
  function: it has no failing result.
\<close>

theorem register_lock_increments:
  "fst (register_lock sb h) = scope_waiter_ctor sb
   \<and> mr_sem (fst (register_lock sb h)) = sb
   \<and> m_count (snd (register_lock sb h) sb) = m_count (h sb) + 1
   \<and> m_sem (snd (register_lock sb h) sb) = m_sem (h sb)
   \<and> (\<forall>b. b \<noteq> sb \<longrightarrow> snd (register_lock sb h) b = h b)"
  by (simp add: register_lock_def scope_waiter_ctor_def)

text \<open>
  On fresh barriers: the counter of the barrier at 0 becomes 1, the barrier at 1 stays
  fresh.
\<close>

theorem register_lock_increments_witness:
  "mr_sem (fst reg0) = 0 \<and> m_count (snd reg0 0) = 1 \<and> m_sem (snd reg0 0) = sem_init 0
   \<and> snd reg0 1 = synched_t_ctor"
proof -
  have "(1 :: addr) \<noteq> 0" by simp
  with register_lock_increments [of 0 "store sys0"]
  have "mr_sem (fst reg0) = 0 \<and> m_count (snd reg0 0) = m_count (store sys0 0) + 1
      \<and> m_sem (snd reg0 0) = m_sem (store sys0 0) \<and> snd reg0 1 = store sys0 1"
    unfolding reg0_def by blast
  then show ?thesis by (simp add: sys0_def synched_t_ctor_def)
qed

lemma dtor_at:
  "mr_sem w = a \<Longrightarrow>
   m_count (scope_waiter_dtor w h a) = m_count (h a)
   \<and> n_wait (m_sem (scope_waiter_dtor w h a)) = n_wait (m_sem (h a))
   \<and> n_post (m_sem (scope_waiter_dtor w h a)) = Suc (n_post (m_sem (h a)))
   \<and> sem_val (m_sem (scope_waiter_dtor w h a)) = Suc (sem_val (m_sem (h a)))"
  by (simp add: scope_waiter_dtor_def sem_post_def)

lemma fold_dtor:
  "\<forall>w \<in> set ws. mr_sem w = a \<Longrightarrow>
   m_count (fold scope_waiter_dtor ws h a) = m_count (h a)
   \<and> n_wait (m_sem (fold scope_waiter_dtor ws h a)) = n_wait (m_sem (h a))
   \<and> n_post (m_sem (fold scope_waiter_dtor ws h a)) = n_post (m_sem (h a)) + length ws
   \<and> sem_val (m_sem (fold scope_waiter_dtor ws h a)) = sem_val (m_sem (h a)) + length ws"
proof (induction ws arbitrary: h)
  case Nil
  then show ?case by simp
next
  case (Cons w ws)
  then have w: "mr_sem w = a" and ws: "\<forall>w \<in> set ws. mr_sem w = a" by simp_all
  from Cons.IH [OF ws, of "scope_waiter_dtor w h"] dtor_at [OF w, of h] show ?case
    by simp
qed

section \<open>Copies of a token\<close>

text \<open>
  C5 (amended). A copy of a token refers to the same semaphore as the original, and
  copying does not touch the counter. Every instance posts once when it is destroyed:
  destroying a token and \<open>k\<close> copies of it posts the semaphore \<open>k + 1\<close> times and leaves
  the counter as it was.
\<close>

theorem scope_waiter_copy_signals_again:
  "mr_sem (scope_waiter_copy w) = mr_sem w
   \<and> m_count (fold scope_waiter_dtor (w # replicate k (scope_waiter_copy w)) h (mr_sem w))
       = m_count (h (mr_sem w))
   \<and> n_post (m_sem (fold scope_waiter_dtor (w # replicate k (scope_waiter_copy w)) h (mr_sem w)))
       = n_post (m_sem (h (mr_sem w))) + Suc k
   \<and> sem_val (m_sem (fold scope_waiter_dtor (w # replicate k (scope_waiter_copy w)) h (mr_sem w)))
       = sem_val (m_sem (h (mr_sem w))) + Suc k"
proof -
  have "\<forall>x \<in> set (w # replicate k (scope_waiter_copy w)). mr_sem x = mr_sem w"
    by (auto simp: scope_waiter_copy_def)
  from fold_dtor [OF this, of h] show ?thesis
    by (simp add: scope_waiter_copy_def)
qed

text \<open>
  One registration on a fresh barrier, one copy of the token, both instances destroyed:
  the counter is 1 and the semaphore has been posted twice.
\<close>

theorem scope_waiter_copy_counterexample:
  "m_count
     (scope_waiter_dtor (scope_waiter_copy (fst reg0)) (scope_waiter_dtor (fst reg0) (snd reg0)) 0)
     = 1
   \<and> n_post (m_sem
     (scope_waiter_dtor (scope_waiter_copy (fst reg0)) (scope_waiter_dtor (fst reg0) (snd reg0)) 0))
     = 2"
  by (simp add: reg0_def sys0_def register_lock_def scope_waiter_ctor_def scope_waiter_copy_def
      scope_waiter_dtor_def sem_post_def synched_t_ctor_def sem_init_def)

section \<open>The signal of a finished task\<close>

text \<open>
  C6. The destructor of a token posts its semaphore exactly once: the counter of the
  semaphore and its number of posts go up by one, nothing is consumed and the counter
  of the barrier is untouched; the destructor is a total function, it never blocks.
  When the executor runs a task that holds a token of the barrier at \<open>a\<close>, the run
  succeeds and ends with that one post whatever the callable did, returning or
  raising (the store after the run does not depend on the outcome of \<^verbatim>\<open>execute\<close>),
  and a thread blocked in \<^verbatim>\<open>sem_wait\<close> on \<open>a\<close> can move afterwards.
\<close>

theorem scope_waiter_dtor_signals_once:
  assumes "k < length (pool s)" "bound_to a (pool s ! k)"
  shows "sem_val (m_sem (scope_waiter_dtor w h (mr_sem w))) = Suc (sem_val (m_sem (h (mr_sem w))))
       \<and> n_post (m_sem (scope_waiter_dtor w h (mr_sem w))) = Suc (n_post (m_sem (h (mr_sem w))))
       \<and> n_wait (m_sem (scope_waiter_dtor w h (mr_sem w))) = n_wait (m_sem (h (mr_sem w)))
       \<and> m_count (scope_waiter_dtor w h (mr_sem w)) = m_count (h (mr_sem w))
       \<and> (\<exists>s'. run_task k s = Some s'
            \<and> user s' = snd (execute (pool s ! k) (user s))
            \<and> store s' = task_dtor (pool s ! k) (store s)
            \<and> sem_val (m_sem (store s' a)) = Suc (sem_val (m_sem (store s a)))
            \<and> n_post (m_sem (store s' a)) = Suc (n_post (m_sem (store s a)))
            \<and> (\<forall>i. waiter s = In_sem_wait a i \<longrightarrow> step Wait_step s' \<noteq> None))"
proof -
  let ?s' = "s\<lparr>store := task_dtor (pool s ! k) (store s),
      pool := take k (pool s) @ drop (Suc k) (pool s),
      user := snd (execute (pool s ! k) (user s))\<rparr>"
  have r: "run_task k s = Some ?s'"
    using assms(1) by (simp add: run_task_def split: prod.splits)
  have st: "store ?s' a = (store s a)\<lparr>m_sem := sem_post (m_sem (store s a))\<rparr>"
    using assms(2) by (simp add: task_dtor_bound)
  then have v: "sem_val (m_sem (store ?s' a)) = Suc (sem_val (m_sem (store s a)))"
    and p: "n_post (m_sem (store ?s' a)) = Suc (n_post (m_sem (store s a)))"
    by (simp_all add: sem_post_def)
  have "step Wait_step ?s' \<noteq> None" if "waiter s = In_sem_wait a i" for i
  proof -
    from v have "0 < sem_val (m_sem (store ?s' a))" by simp
    from sem_wait_pos [OF this] that show ?thesis by simp
  qed
  with r v p have "\<exists>s'. run_task k s = Some s'
      \<and> user s' = snd (execute (pool s ! k) (user s))
      \<and> store s' = task_dtor (pool s ! k) (store s)
      \<and> sem_val (m_sem (store s' a)) = Suc (sem_val (m_sem (store s a)))
      \<and> n_post (m_sem (store s' a)) = Suc (n_post (m_sem (store s a)))
      \<and> (\<forall>i. waiter s = In_sem_wait a i \<longrightarrow> step Wait_step s' \<noteq> None)"
    by (intro exI [of _ ?s']) simp
  with dtor_at [of w "mr_sem w" h] show ?thesis by simp
qed

text \<open>
  A registered task whose callable raises, with the waiting thread blocked on the
  barrier: the run posts once and the wait returns.
\<close>

theorem scope_waiter_dtor_signals_once_witness:
  "fst (execute (pool sys1b ! 0) (user sys1b)) = Raises
   \<and> map_option (observe 0) (run_task 0 sys1b)
     = Some \<lparr>o_waiter = In_sem_wait 0 0, o_live = 0, o_count = 1, o_val = 1, o_post = 1,
         o_wait = 0\<rparr>
   \<and> map_option (observe 0) (exec [Run 0, Wait_step, Wait_step, Wait_step] sys1b)
     = Some \<lparr>o_waiter = Returned 0, o_live = 0, o_count = 0, o_val = 0, o_post = 1,
         o_wait = 1\<rparr>"
proof -
  have h1: "0 < length (pool sys1b)"
    by (simp add: sys1b_def demo_defs demo2_defs submit_defs)
  have h2: "bound_to 0 (pool sys1b ! 0)"
    by (simp add: sys1b_def demo_defs demo2_defs submit_defs)
  from scope_waiter_dtor_signals_once [OF h1 h2] obtain s' where r: "run_task 0 sys1b = Some s'"
    and v: "sem_val (m_sem (store s' 0)) = Suc (sem_val (m_sem (store sys1b 0)))"
    and p: "n_post (m_sem (store s' 0)) = Suc (n_post (m_sem (store sys1b 0)))"
    by blast
  have "sem_val (m_sem (store sys1b 0)) = 0 \<and> n_post (m_sem (store sys1b 0)) = 0"
    by (simp add: sys1b_def demo_defs demo2_defs submit_defs)
  with v p have vp: "sem_val (m_sem (store s' 0)) = 1 \<and> n_post (m_sem (store s' 0)) = 1"
    by simp
  have rest: "\<exists>t. run_task 0 sys1b = Some t \<and> waiter t = In_sem_wait 0 0 \<and> live 0 t = 0
      \<and> m_count (store t 0) = 1 \<and> n_wait (m_sem (store t 0)) = 0"
    by (simp add: sys1b_def demo_defs demo2_defs submit_defs run_defs)
  with r have "waiter s' = In_sem_wait 0 0 \<and> live 0 s' = 0
      \<and> m_count (store s' 0) = 1 \<and> n_wait (m_sem (store s' 0)) = 0" by simp
  with r vp have A: "map_option (observe 0) (run_task 0 sys1b)
     = Some \<lparr>o_waiter = In_sem_wait 0 0, o_live = 0, o_count = 1, o_val = 1, o_post = 1,
         o_wait = 0\<rparr>"
    by (simp add: observe_def)
  have B: "fst (execute (pool sys1b ! 0) (user sys1b)) = Raises"
    by (simp add: sys1b_def demo_defs demo2_defs submit_defs)
  have C: "map_option (observe 0) (exec [Run 0, Wait_step, Wait_step, Wait_step] sys1b)
     = Some \<lparr>o_waiter = Returned 0, o_live = 0, o_count = 0, o_val = 0, o_post = 1,
         o_wait = 1\<rparr>"
    by (simp add: sys1b_def demo_defs demo2_defs submit_defs run_defs)
  from A B C show ?thesis by simp
qed

section \<open>The submission constructors\<close>

text \<open>
  C9. Each of the four constructors of \<^verbatim>\<open>async\<close> yields the same system as the
  corresponding constructor of \<^verbatim>\<open>parallel\<close>: the same registration, the same captured
  callable and values, the same task handed to the executor.
\<close>

theorem async_is_parallel:
  "async_sb sb func s = parallel_sb sb func s
   \<and> async func s = parallel func s
   \<and> async_sb_params sb f params s = parallel_sb_params sb f params s
   \<and> async_params f params s = parallel_params f params s"
  by (simp add: async_sb_def async_def async_sb_params_def async_params_def submit_defs)

section \<open>Waiting for the registered tasks\<close>

lemma acct_free:
  "\<not> waiting_on a (waiter s) \<Longrightarrow>
   acct a s = (sem_val (m_sem (store s a)) + live a s = unat (m_count (store s a)))"
  by (cases "waiter s") (simp_all add: acct_def waiting_on_def Let_def)

lemma unat_succ_not_max:
  fixes c :: "32 word"
  assumes "c \<noteq> - 1"
  shows "unat (c + 1) = Suc (unat c)"
proof -
  from assms have "1 + c \<noteq> 0" by (metis add.commute add_eq_0_iff)
  from unatSuc [OF this] show ?thesis by (simp add: add.commute)
qed

lemma acct_register:
  assumes "acct a s" "\<not> waiting_on a (waiter s)" "m_count (store s a) \<noteq> - 1"
    "store s' a = (store s a)\<lparr>m_count := m_count (store s a) + 1\<rparr>"
    "live a s' = Suc (live a s)" "waiter s' = waiter s"
  shows "acct a s'"
proof -
  from assms(2,6) have nw: "\<not> waiting_on a (waiter s')" by simp
  from assms(1,2) have "sem_val (m_sem (store s a)) + live a s = unat (m_count (store s a))"
    by (simp add: acct_free)
  with assms(4,5) unat_succ_not_max [OF assms(3)]
  have "sem_val (m_sem (store s' a)) + live a s' = unat (m_count (store s' a))" by simp
  with nw show ?thesis by (simp add: acct_free)
qed

lemma step_live_le:
  assumes "\<not> registers a e" "step e s = Some s'"
  shows "live a s' \<le> live a s"
proof (cases e)
  case (Run k)
  with assms(2) have "run_task k s = Some s'" by simp
  from run_task_live [OF this, of a] show ?thesis by (simp split: if_splits)
next
  case Wait_step
  with assms(2) show ?thesis
    by (cases "waiter s") (auto simp: live_def split: option.splits if_splits)
next
  case (Call_wait x)
  with assms(2) show ?thesis by (auto simp: live_def split: if_splits)
next
  case (Call_dtor x)
  with assms(2) show ?thesis by (auto simp: live_def split: if_splits)
next
  case (Parallel_sb sb func)
  with assms show ?thesis by (auto simp: submit_defs live_def bound_to_def)
next
  case (Parallel func)
  with assms show ?thesis by (auto simp: submit_defs live_def bound_to_def)
next
  case (Parallel_sb_params sb f params)
  with assms show ?thesis by (auto simp: submit_defs live_def bound_to_def)
next
  case (Parallel_params f params)
  with assms show ?thesis by (auto simp: submit_defs live_def bound_to_def)
qed

lemma step_waiter:
  assumes "step e s = Some s'" "waiting_on a (waiter s)"
  shows "waiting_on a (waiter s') \<or> (waiter s = Reset a \<and> e = Wait_step \<and> waiter s' = Returned a)"
proof (cases e)
  case (Run k)
  with assms(1) have "waiter s' = waiter s" by (auto dest: run_task_Some)
  with assms(2) show ?thesis by simp
next
  case Wait_step
  with assms show ?thesis
    by (cases "waiter s") (auto simp: waiting_on_def split: option.splits if_splits)
next
  case (Call_wait x)
  with assms show ?thesis
    by (cases "waiter s") (auto simp: waiting_on_def in_call_def split: if_splits)
next
  case (Call_dtor x)
  with assms show ?thesis
    by (cases "waiter s") (auto simp: waiting_on_def in_call_def split: if_splits)
next
  case (Parallel_sb sb func)
  with assms show ?thesis by (auto simp: submit_defs)
next
  case (Parallel func)
  with assms show ?thesis by (auto simp: submit_defs)
next
  case (Parallel_sb_params sb f params)
  with assms show ?thesis by (auto simp: submit_defs)
next
  case (Parallel_params f params)
  with assms show ?thesis by (auto simp: submit_defs)
qed

lemma step_held:
  assumes "\<not> registers a e" "acct a s" "step e s = Some s'"
    "waiting_on a (waiter s) \<or> live a s = 0"
  shows "waiting_on a (waiter s') \<or> live a s' = 0"
proof (cases "live a s = 0")
  case True
  with step_live_le [OF assms(1,3)] show ?thesis by simp
next
  case False
  with assms(4) have w: "waiting_on a (waiter s)" by simp
  from step_waiter [OF assms(3) w] show ?thesis
  proof
    assume "waiting_on a (waiter s')"
    then show ?thesis by simp
  next
    assume r: "waiter s = Reset a \<and> e = Wait_step \<and> waiter s' = Returned a"
    with assms(2) have "live a s = 0" by (simp add: acct_def Let_def)
    with False show ?thesis by simp
  qed
qed

lemma exec_held:
  "\<forall>e \<in> set evs. \<not> registers a e \<Longrightarrow> exec evs s = Some s' \<Longrightarrow> acct a s \<Longrightarrow>
   waiting_on a (waiter s) \<or> live a s = 0 \<Longrightarrow>
   acct a s' \<and> (waiting_on a (waiter s') \<or> live a s' = 0)"
proof (induction evs arbitrary: s)
  case Nil
  then show ?case by simp
next
  case (Cons e evs)
  from Cons.prems(2) obtain s1 where s1: "step e s = Some s1" and r: "exec evs s1 = Some s'"
    by (auto split: option.splits)
  from Cons.prems(1) have ne: "\<not> registers a e" and nr: "\<forall>e \<in> set evs. \<not> registers a e"
    by simp_all
  from step_acct [OF ne s1 Cons.prems(3)] have a1: "acct a s1" .
  from step_held [OF ne Cons.prems(3) s1 Cons.prems(4)]
  have h1: "waiting_on a (waiter s1) \<or> live a s1 = 0" .
  from Cons.IH [OF nr r a1 h1] show ?case .
qed

lemma call_held:
  assumes "acct a s" "step c s = Some s1" "c = Call_wait a \<or> c = Call_dtor a"
    "\<forall>e \<in> set evs. \<not> registers a e" "exec evs s1 = Some s'"
  shows "acct a s' \<and> (waiting_on a (waiter s') \<or> live a s' = 0)"
proof -
  from assms(2,3) have nc: "\<not> in_call (waiter s)" and s1: "s1 = s\<lparr>waiter := Loop_test a 0\<rparr>"
    by (auto simp: wait_for_all_def synched_t_dtor_def split: if_splits)
  from call_acct [OF nc assms(1), of a] s1 have a1: "acct a s1" by simp
  from s1 have "waiting_on a (waiter s1)" by (simp add: waiting_on_def)
  with exec_held [OF assms(4,5) a1] show ?thesis by simp
qed

lemma returned_not_waiting: "waiter s = Returned a \<Longrightarrow> \<not> waiting_on a (waiter s)"
  by (simp add: waiting_on_def)

lemma step_free:
  assumes "\<not> calls_on a e" "step e s = Some s'" "\<not> waiting_on a (waiter s)"
  shows "\<not> waiting_on a (waiter s')"
proof (cases e)
  case (Run k)
  with assms(2) have "waiter s' = waiter s" by (auto dest: run_task_Some)
  with assms(3) show ?thesis by simp
next
  case Wait_step
  with assms(2,3) show ?thesis
    by (cases "waiter s") (auto simp: waiting_on_def split: option.splits if_splits)
next
  case (Call_wait x)
  with assms(1,2) show ?thesis
    by (auto simp: waiting_on_def wait_for_all_def split: if_splits)
next
  case (Call_dtor x)
  with assms(1,2) show ?thesis
    by (auto simp: waiting_on_def wait_for_all_def synched_t_dtor_def split: if_splits)
next
  case (Parallel_sb sb func)
  with assms(2,3) show ?thesis by (auto simp: submit_defs)
next
  case (Parallel func)
  with assms(2,3) show ?thesis by (auto simp: submit_defs)
next
  case (Parallel_sb_params sb f params)
  with assms(2,3) show ?thesis by (auto simp: submit_defs)
next
  case (Parallel_params f params)
  with assms(2,3) show ?thesis by (auto simp: submit_defs)
qed

lemma step_count_same:
  assumes "\<not> registers a e" "step e s = Some s'" "\<not> waiting_on a (waiter s)"
  shows "m_count (store s' a) = m_count (store s a)"
proof (cases e)
  case (Run k)
  with assms(2) have "store s' = task_dtor (pool s ! k) (store s)" by (auto dest: run_task_Some)
  then show ?thesis by (simp add: task_dtor_frame)
next
  case Wait_step
  with assms(2,3) show ?thesis
    by (cases "waiter s") (auto simp: waiting_on_def split: option.splits if_splits)
next
  case (Call_wait x)
  with assms(2) show ?thesis by (auto split: if_splits)
next
  case (Call_dtor x)
  with assms(2) show ?thesis by (auto split: if_splits)
next
  case (Parallel_sb sb func)
  with assms(1,2) show ?thesis by (auto simp: submit_defs)
next
  case (Parallel func)
  with assms(1,2) show ?thesis by (auto simp: submit_defs)
next
  case (Parallel_sb_params sb f params)
  with assms(1,2) show ?thesis by (auto simp: submit_defs)
next
  case (Parallel_params f params)
  with assms(1,2) show ?thesis by (auto simp: submit_defs)
qed

lemma exec_before_wait:
  "\<not> waiting_on a (waiter s) \<Longrightarrow> acct a s \<Longrightarrow> \<forall>e \<in> set evs. \<not> calls_on a e \<Longrightarrow>
   unat (m_count (store s a)) + length (filter (registers a) evs) < 2 ^ 32 \<Longrightarrow>
   exec evs s = Some s' \<Longrightarrow>
   \<not> waiting_on a (waiter s') \<and> acct a s'
   \<and> n_post (m_sem (store s' a)) + live a s'
       = n_post (m_sem (store s a)) + live a s + length (filter (registers a) evs)"
proof (induction evs arbitrary: s)
  case Nil
  then show ?case by simp
next
  case (Cons e evs)
  from Cons.prems(5) obtain s1 where s1: "step e s = Some s1" and r: "exec evs s1 = Some s'"
    by (auto split: option.splits)
  from Cons.prems(3) have nc: "\<not> calls_on a e" and ncs: "\<forall>e \<in> set evs. \<not> calls_on a e"
    by simp_all
  from step_free [OF nc s1 Cons.prems(1)] have f1: "\<not> waiting_on a (waiter s1)" .
  show ?case
  proof (cases "registers a e")
    case True
    from step_registers [OF True, of s] s1
    have st: "store s1 a = (store s a)\<lparr>m_count := m_count (store s a) + 1\<rparr>"
      and l: "live a s1 = Suc (live a s)" and w: "waiter s1 = waiter s" by auto
    from True Cons.prems(4) have lt: "Suc (unat (m_count (store s a))) < 2 ^ 32" by simp
    have "unat (m_count (store s a) + 1) = Suc (unat (m_count (store s a)))"
      using lt by (simp add: unat_word_ariths)
    then have nm: "m_count (store s a) \<noteq> - 1" by auto
    from acct_register [OF Cons.prems(2,1) nm st l w] have a1: "acct a s1" .
    from st unat_succ_not_max [OF nm]
    have c1: "unat (m_count (store s1 a)) = Suc (unat (m_count (store s a)))" by simp
    with True Cons.prems(4)
    have b1: "unat (m_count (store s1 a)) + length (filter (registers a) evs) < 2 ^ 32"
      by simp
    from st have p1: "n_post (m_sem (store s1 a)) = n_post (m_sem (store s a))" by simp
    from Cons.IH [OF f1 a1 ncs b1 r] True l p1 show ?thesis by simp
  next
    case False
    from step_acct [OF False s1 Cons.prems(2)] have a1: "acct a s1" .
    from step_count_same [OF False s1 Cons.prems(1)] False Cons.prems(4)
    have b1: "unat (m_count (store s1 a)) + length (filter (registers a) evs) < 2 ^ 32"
      by simp
    from Cons.IH [OF f1 a1 ncs b1 r] step_posted [OF False s1] False show ?thesis by simp
  qed
qed

lemma exec_orderly:
  "orderly a evs s \<Longrightarrow> acct a s \<Longrightarrow> exec evs s = Some s' \<Longrightarrow> acct a s'"
proof (induction evs arbitrary: s)
  case Nil
  then show ?case by simp
next
  case (Cons e evs)
  from Cons.prems(3) obtain s1 where s1: "step e s = Some s1" and r: "exec evs s1 = Some s'"
    by (auto split: option.splits)
  from Cons.prems(1) s1 have o1: "orderly a evs s1"
    and ok: "\<not> registers a e \<or> (\<not> waiting_on a (waiter s) \<and> m_count (store s a) \<noteq> - 1)"
    by simp_all
  have a1: "acct a s1"
  proof (cases "registers a e")
    case True
    with ok have nw: "\<not> waiting_on a (waiter s)" and nm: "m_count (store s a) \<noteq> - 1"
      by simp_all
    from step_registers [OF True, of s] s1
    have st: "store s1 a = (store s a)\<lparr>m_count := m_count (store s a) + 1\<rparr>"
      and l: "live a s1 = Suc (live a s)" and w: "waiter s1 = waiter s" by auto
    from acct_register [OF Cons.prems(2) nw nm st l w] show ?thesis .
  next
    case False
    from step_acct [OF False s1 Cons.prems(2)] show ?thesis .
  qed
  from Cons.IH [OF o1 a1 r] show ?case .
qed

lemma live_member:
  "t \<in> set (pool s) \<Longrightarrow> bound_to a t \<Longrightarrow> 0 < live a s"
  by (auto simp: live_def filter_empty_conv)

lemmas demo3_defs = late_def before2_def during2_def reuse_def stuck_def

text \<open>
  C1 (amended). A barrier is fresh at \<open>a\<close>. Before \<^verbatim>\<open>wait_for_all\<close> is called on it, \<open>N\<close>
  tracked submissions register on it, \<open>N < 2 ^ 32\<close>, in any interleaving with task runs,
  other submissions and waits on other barriers; from the call on, nothing registers on
  \<open>a\<close>. Then, whatever the schedule: while a token of \<open>a\<close> is alive the thread is inside
  the wait; if it has returned, no token of \<open>a\<close> is alive and the semaphore has been
  posted \<open>N\<close> times; and once no token is alive, the wait returns after finitely many
  steps of the waiting thread.
\<close>

theorem wait_for_all_after_all_signals:
  assumes "store s0 a = synched_t_ctor" "live a s0 = 0" "\<not> waiting_on a (waiter s0)"
    and "\<forall>e \<in> set evs1. \<not> calls_on a e" "length (filter (registers a) evs1) < 2 ^ 32"
    and "\<forall>e \<in> set evs2. \<not> registers a e"
    and "exec (evs1 @ Call_wait a # evs2) s0 = Some s'"
  shows "(0 < live a s' \<longrightarrow> waiting_on a (waiter s'))
       \<and> (waiter s' = Returned a \<longrightarrow>
            live a s' = 0
            \<and> n_post (m_sem (store s' a)) = length (filter (registers a) evs1))
       \<and> (waiting_on a (waiter s') \<and> live a s' = 0 \<longrightarrow>
            (\<exists>n s''. exec (replicate n Wait_step) s' = Some s'' \<and> waiter s'' = Returned a))"
proof -
  from assms(7) obtain s1 s2 where s1: "exec evs1 s0 = Some s1"
    and s2: "step (Call_wait a) s1 = Some s2" and r: "exec evs2 s2 = Some s'"
    by (auto simp: exec_append split: option.splits)
  from assms(1,2,3) have a0: "acct a s0"
    by (simp add: acct_free synched_t_ctor_def sem_init_def)
  from assms(1,5) have b0: "unat (m_count (store s0 a)) + length (filter (registers a) evs1) < 2 ^ 32"
    by (simp add: synched_t_ctor_def)
  from exec_before_wait [OF assms(3) a0 assms(4) b0 s1] assms(1,2)
  have a1: "acct a s1"
    and p1: "n_post (m_sem (store s1 a)) + live a s1 = length (filter (registers a) evs1)"
    by (simp_all add: synched_t_ctor_def sem_init_def)
  from call_held [OF a1 s2 _ assms(6) r]
  have a': "acct a s'" and h': "waiting_on a (waiter s') \<or> live a s' = 0" by simp_all
  have "\<not> registers a (Call_wait a)" by simp
  from step_posted [OF this s2] exec_posted [OF assms(6) r] p1
  have p': "n_post (m_sem (store s' a)) + live a s' = length (filter (registers a) evs1)"
    by simp
  have A: "0 < live a s' \<longrightarrow> waiting_on a (waiter s')" using h' by auto
  have B: "waiter s' = Returned a \<longrightarrow>
      live a s' = 0 \<and> n_post (m_sem (store s' a)) = length (filter (registers a) evs1)"
    using h' p' returned_not_waiting [of s' a] by auto
  have C: "waiting_on a (waiter s') \<and> live a s' = 0 \<longrightarrow>
      (\<exists>n s''. exec (replicate n Wait_step) s' = Some s'' \<and> waiter s'' = Returned a)"
    using drain_finishes [OF a'] by blast
  from A B C show ?thesis by blast
qed

text \<open>
  Two tracked tasks on the fresh barrier at 0, the first run before the second is
  registered, the thread having waited before; the wait begins before the second task
  has run and returns after both have posted.
\<close>

theorem wait_for_all_after_all_signals_witness:
  "map_option (observe 0) (exec (before2 @ Call_wait 0 # during2) (sys0\<lparr>waiter := Returned 0\<rparr>))
   = Some \<lparr>o_waiter = Returned 0, o_live = 0, o_count = 0, o_val = 0, o_post = 2, o_wait = 2\<rparr>"
proof -
  let ?s0 = "sys0\<lparr>waiter := Returned 0\<rparr>"
  have "\<exists>s'. exec (before2 @ Call_wait 0 # during2) ?s0 = Some s' \<and> waiter s' = Returned 0
      \<and> m_count (store s' 0) = 0 \<and> sem_val (m_sem (store s' 0)) = 0
      \<and> n_wait (m_sem (store s' 0)) = 2"
    by (simp add: demo_defs demo3_defs submit_defs run_defs)
  then obtain s' where e: "exec (before2 @ Call_wait 0 # during2) ?s0 = Some s'"
    and w: "waiter s' = Returned 0" and c: "m_count (store s' 0) = 0"
    and v: "sem_val (m_sem (store s' 0)) = 0" and n: "n_wait (m_sem (store s' 0)) = 2"
    by blast
  have h1: "store ?s0 0 = synched_t_ctor" and h2: "live 0 ?s0 = 0"
    and h3: "\<not> waiting_on 0 (waiter ?s0)"
    by (simp_all add: sys0_def live_def waiting_on_def)
  have h4: "\<forall>e \<in> set before2. \<not> calls_on 0 e" by (simp add: before2_def)
  have h5: "length (filter (registers 0) before2) < 2 ^ 32" by (simp add: before2_def)
  have h6: "\<forall>e \<in> set during2. \<not> registers 0 e" by (simp add: during2_def)
  from wait_for_all_after_all_signals [OF h1 h2 h3 h4 h5 h6 e] w
  have "live 0 s' = 0 \<and> n_post (m_sem (store s' 0)) = length (filter (registers 0) before2)"
    by simp
  with e w c v n show ?thesis by (simp add: observe_def before2_def)
qed

lemma wait_after_wrap:
  assumes "\<forall>e \<in> set regs. registers 0 e" "of_nat (length regs) = (0 :: 32 word)"
    "c = Call_wait 0 \<or> c = Call_dtor 0"
  shows "map_option (observe 0) (exec (regs @ [c, Wait_step, Wait_step]) sys0)
    = Some \<lparr>o_waiter = Returned 0, o_live = length regs, o_count = 0, o_val = 0, o_post = 0,
        o_wait = 0\<rparr>"
proof -
  from exec_registers [OF assms(1), of sys0] obtain s1 where s1: "exec regs sys0 = Some s1"
    and st: "store s1 0
      = (store sys0 0)\<lparr>m_count := m_count (store sys0 0) + of_nat (length regs)\<rparr>"
    and l: "live 0 s1 = live 0 sys0 + length regs" and w: "waiter s1 = waiter sys0"
    by blast
  from st assms(2) have st': "store s1 0 = synched_t_ctor"
    by (simp add: sys0_def synched_t_ctor_def)
  from l have l': "live 0 s1 = length regs" by (simp add: sys0_def live_def)
  from w have w': "waiter s1 = Idle" by (simp add: sys0_def)
  have "exec [c, Wait_step, Wait_step] s1
      = Some (s1\<lparr>store := (store s1)(0 := (store s1 0)\<lparr>m_count := 0\<rparr>), waiter := Returned 0\<rparr>)"
    using st' w' assms(3) by (auto simp: run_defs synched_t_ctor_def)
  with s1 st' l' show ?thesis
    by (simp add: exec_append observe_def live_def synched_t_ctor_def sem_init_def)
qed

text \<open>
  The counter is a 32-bit word: after \<open>2 ^ 32\<close> registrations on a fresh barrier it is
  zero again, and \<^verbatim>\<open>wait_for_all\<close> returns at once while all \<open>2 ^ 32\<close> tokens are alive
  and none has signalled. And a registration between the last loop test and the reset
  is wiped out by the reset: of two registered tasks one is alive when the wait returns.
\<close>

theorem wait_for_all_returns_early_counterexample:
  "map_option (observe 0)
      (exec (replicate 4294967296 (Parallel_sb 0 tick) @ [Call_wait 0, Wait_step, Wait_step]) sys0)
    = Some \<lparr>o_waiter = Returned 0, o_live = 4294967296, o_count = 0, o_val = 0, o_post = 0,
        o_wait = 0\<rparr>
   \<and> map_option (observe 0) (exec (late (Call_wait 0) (Parallel_sb 0 tick)) sys0)
    = Some \<lparr>o_waiter = Returned 0, o_live = 1, o_count = 0, o_val = 0, o_post = 1,
        o_wait = 1\<rparr>"
proof
  show "map_option (observe 0)
      (exec (replicate 4294967296 (Parallel_sb 0 tick) @ [Call_wait 0, Wait_step, Wait_step]) sys0)
    = Some \<lparr>o_waiter = Returned 0, o_live = 4294967296, o_count = 0, o_val = 0, o_post = 0,
        o_wait = 0\<rparr>"
    using wait_after_wrap [of "replicate 4294967296 (Parallel_sb 0 tick)" "Call_wait 0"]
    by simp
  show "map_option (observe 0) (exec (late (Call_wait 0) (Parallel_sb 0 tick)) sys0)
    = Some \<lparr>o_waiter = Returned 0, o_live = 1, o_count = 0, o_val = 0, o_post = 1,
        o_wait = 1\<rparr>"
    by (simp add: demo_defs demo3_defs submit_defs run_defs)
qed

text \<open>
  C4 (amended). The destructor of a barrier is one call of \<^verbatim>\<open>wait_for_all\<close>. When it is
  entered on the barrier at \<open>a\<close> whose accounting holds (no wait being in progress, the
  counter equals the live tokens plus the unconsumed signals), and nothing registers on
  \<open>a\<close> from then on: while a token of \<open>a\<close> is alive the thread is inside the destructor;
  if it has returned, no token of \<open>a\<close> is alive; and once no token is alive, it returns
  after finitely many steps of the waiting thread.
\<close>

theorem synched_t_dtor_waits:
  assumes "acct a s" "\<forall>e \<in> set evs. \<not> registers a e"
    and "exec (Call_dtor a # evs) s = Some s'"
  shows "step (Call_dtor a) s = step (Call_wait a) s
       \<and> (0 < live a s' \<longrightarrow> waiting_on a (waiter s'))
       \<and> (waiter s' = Returned a \<longrightarrow> live a s' = 0)
       \<and> (waiting_on a (waiter s') \<and> live a s' = 0 \<longrightarrow>
            (\<exists>n s''. exec (replicate n Wait_step) s' = Some s'' \<and> waiter s'' = Returned a))"
proof -
  from assms(3) obtain s1 where s1: "step (Call_dtor a) s = Some s1"
    and r: "exec evs s1 = Some s'"
    by (auto split: option.splits)
  from call_held [OF assms(1) s1 _ assms(2) r]
  have a': "acct a s'" and h': "waiting_on a (waiter s') \<or> live a s' = 0" by simp_all
  have "step (Call_dtor a) s = step (Call_wait a) s" by (simp add: synched_t_dtor_def)
  moreover have "0 < live a s' \<longrightarrow> waiting_on a (waiter s')" using h' by auto
  moreover have "waiter s' = Returned a \<longrightarrow> live a s' = 0"
    using h' returned_not_waiting [of s' a] by auto
  moreover have "waiting_on a (waiter s') \<and> live a s' = 0 \<longrightarrow>
      (\<exists>n s''. exec (replicate n Wait_step) s' = Some s'' \<and> waiter s'' = Returned a)"
    using drain_finishes [OF a'] by blast
  ultimately show ?thesis by blast
qed

text \<open>
  A barrier that has been waited on once gets two new tasks and is destroyed without a
  call of \<^verbatim>\<open>wait_for_all\<close>: the destructor returns after both tasks have posted.
\<close>

theorem synched_t_dtor_waits_witness:
  "map_option (observe 0) (exec reuse sys0)
     = Some \<lparr>o_waiter = Returned 0, o_live = 2, o_count = 2, o_val = 0, o_post = 1, o_wait = 1\<rparr>
   \<and> map_option (observe 0) (exec (reuse @ Call_dtor 0 # sched2) sys0)
     = Some \<lparr>o_waiter = Returned 0, o_live = 0, o_count = 0, o_val = 0, o_post = 3, o_wait = 3\<rparr>"
proof -
  have "\<exists>s. exec reuse sys0 = Some s \<and> acct 0 s
      \<and> observe 0 s = \<lparr>o_waiter = Returned 0, o_live = 2, o_count = 2, o_val = 0, o_post = 1,
          o_wait = 1\<rparr>"
    by (simp add: acct_def Let_def demo_defs demo3_defs submit_defs run_defs)
  then obtain s where s: "exec reuse sys0 = Some s" and h1: "acct 0 s"
    and o: "observe 0 s = \<lparr>o_waiter = Returned 0, o_live = 2, o_count = 2, o_val = 0,
          o_post = 1, o_wait = 1\<rparr>"
    by blast
  have "\<exists>s'. exec (reuse @ Call_dtor 0 # sched2) sys0 = Some s' \<and> waiter s' = Returned 0
      \<and> m_count (store s' 0) = 0 \<and> sem_val (m_sem (store s' 0)) = 0
      \<and> n_post (m_sem (store s' 0)) = 3 \<and> n_wait (m_sem (store s' 0)) = 3"
    by (simp add: demo_defs demo3_defs submit_defs run_defs)
  then obtain s' where e: "exec (reuse @ Call_dtor 0 # sched2) sys0 = Some s'"
    and w: "waiter s' = Returned 0" and c: "m_count (store s' 0) = 0"
    and v: "sem_val (m_sem (store s' 0)) = 0" and p: "n_post (m_sem (store s' 0)) = 3"
    and n: "n_wait (m_sem (store s' 0)) = 3"
    by blast
  from e s have e': "exec (Call_dtor 0 # sched2) s = Some s'"
    by (simp only: exec_append option.case)
  have h2: "\<forall>e \<in> set sched2. \<not> registers 0 e" by (simp add: sched2_def)
  from synched_t_dtor_waits [OF h1 h2 e'] w have "live 0 s' = 0" by simp
  with s o e w c v p n show ?thesis by (simp add: observe_def)
qed

text \<open>
  After \<open>2 ^ 32\<close> registrations the destructor returns at once with every token alive;
  and a task that registers between the last loop test and the reset of the destructor
  is alive when the destructor returns.
\<close>

theorem synched_t_dtor_returns_early_counterexample:
  "map_option (observe 0)
      (exec (replicate 4294967296 (Parallel_sb 0 tick) @ [Call_dtor 0, Wait_step, Wait_step]) sys0)
    = Some \<lparr>o_waiter = Returned 0, o_live = 4294967296, o_count = 0, o_val = 0, o_post = 0,
        o_wait = 0\<rparr>
   \<and> map_option (observe 0) (exec (late (Call_dtor 0) (Parallel_sb 0 boom)) sys0)
    = Some \<lparr>o_waiter = Returned 0, o_live = 1, o_count = 0, o_val = 0, o_post = 1,
        o_wait = 1\<rparr>"
proof
  show "map_option (observe 0)
      (exec (replicate 4294967296 (Parallel_sb 0 tick) @ [Call_dtor 0, Wait_step, Wait_step]) sys0)
    = Some \<lparr>o_waiter = Returned 0, o_live = 4294967296, o_count = 0, o_val = 0, o_post = 0,
        o_wait = 0\<rparr>"
    using wait_after_wrap [of "replicate 4294967296 (Parallel_sb 0 tick)" "Call_dtor 0"]
    by simp
  show "map_option (observe 0) (exec (late (Call_dtor 0) (Parallel_sb 0 boom)) sys0)
    = Some \<lparr>o_waiter = Returned 0, o_live = 1, o_count = 0, o_val = 0, o_post = 1,
        o_wait = 1\<rparr>"
    by (simp add: demo_defs demo3_defs submit_defs run_defs)
qed

text \<open>
  C8 (amended). \<^verbatim>\<open>wait_for_all\<close> is called on the barrier at \<open>a\<close> whose accounting holds
  (the counter equals the live tokens plus the unconsumed signals), and nothing registers
  on \<open>a\<close> from then on. After any schedule, however long: while a token of \<open>a\<close> is alive
  the thread is inside \<^verbatim>\<open>wait_for_all\<close>, so it has neither returned nor failed; if it has
  returned, no token of \<open>a\<close> is alive; and once no token is alive, the call returns
  after finitely many steps of the waiting thread.
\<close>

theorem wait_for_all_no_timeout:
  assumes "acct a s" "\<forall>e \<in> set evs. \<not> registers a e"
    and "exec (Call_wait a # evs) s = Some s'"
  shows "(0 < live a s' \<longrightarrow> waiting_on a (waiter s'))
       \<and> (waiter s' = Returned a \<longrightarrow> live a s' = 0)
       \<and> (waiting_on a (waiter s') \<and> live a s' = 0 \<longrightarrow>
            (\<exists>n s''. exec (replicate n Wait_step) s' = Some s'' \<and> waiter s'' = Returned a))"
proof -
  from assms(3) obtain s1 where s1: "step (Call_wait a) s = Some s1"
    and r: "exec evs s1 = Some s'"
    by (auto split: option.splits)
  from call_held [OF assms(1) s1 _ assms(2) r]
  have a': "acct a s'" and h': "waiting_on a (waiter s') \<or> live a s' = 0" by simp_all
  have A: "0 < live a s' \<longrightarrow> waiting_on a (waiter s')" using h' by auto
  have B: "waiter s' = Returned a \<longrightarrow> live a s' = 0"
    using h' returned_not_waiting [of s' a] by auto
  have C: "waiting_on a (waiter s') \<and> live a s' = 0 \<longrightarrow>
      (\<exists>n s''. exec (replicate n Wait_step) s' = Some s'' \<and> waiter s'' = Returned a)"
    using drain_finishes [OF a'] by blast
  from A B C show ?thesis by blast
qed

text \<open>
  One registered task that is never run: after other work has been submitted and run,
  the thread is still inside the wait and has no further step.
\<close>

theorem wait_for_all_no_timeout_witness:
  "map_option (waiting_on 0 \<circ> waiter) (exec stuck (parallel_sb 0 boom sys0)) = Some True
   \<and> map_option (live 0) (exec stuck (parallel_sb 0 boom sys0)) = Some 1
   \<and> exec (stuck @ [Wait_step]) (parallel_sb 0 boom sys0) = None"
proof -
  let ?s = "parallel_sb 0 boom sys0"
  have "\<exists>s'. exec stuck ?s = Some s' \<and> live 0 s' = 1 \<and> step Wait_step s' = None"
    by (simp add: demo_defs demo3_defs submit_defs run_defs)
  then obtain s' where e: "exec stuck ?s = Some s'" and l: "live 0 s' = 1"
    and b: "step Wait_step s' = None"
    by blast
  have h1: "acct 0 ?s" by (simp add: acct_def Let_def demo_defs submit_defs)
  have h2: "\<forall>e \<in> set [Wait_step, Parallel tick, Run 1]. \<not> registers 0 e" by simp
  from e have e': "exec (Call_wait 0 # [Wait_step, Parallel tick, Run 1]) ?s = Some s'"
    by (simp add: stuck_def)
  from wait_for_all_no_timeout [OF h1 h2 e'] l have "waiting_on 0 (waiter s')" by simp
  moreover from e b have "exec (stuck @ [Wait_step]) ?s = None"
    by (simp only: exec_append option.case exec.simps)
  ultimately show ?thesis using e l by simp
qed

text \<open>
  With \<open>2 ^ 32\<close> registered tokens, none ever released, \<^verbatim>\<open>wait_for_all\<close> returns in two
  steps; and it returns although the token of a task that registered between the last
  loop test and the reset is never released.
\<close>

theorem wait_for_all_unreleased_counterexample:
  "map_option (observe 0)
      (exec (replicate 4294967296 (Parallel_sb_params 0 add_all [1, 2, 3])
             @ [Call_wait 0, Wait_step, Wait_step]) sys0)
    = Some \<lparr>o_waiter = Returned 0, o_live = 4294967296, o_count = 0, o_val = 0, o_post = 0,
        o_wait = 0\<rparr>
   \<and> map_option (observe 0)
      (exec (late (Call_wait 0) (Parallel_sb_params 0 add_all [1, 2, 3])) sys0)
    = Some \<lparr>o_waiter = Returned 0, o_live = 1, o_count = 0, o_val = 0, o_post = 1,
        o_wait = 1\<rparr>"
proof
  show "map_option (observe 0)
      (exec (replicate 4294967296 (Parallel_sb_params 0 add_all [1, 2, 3])
             @ [Call_wait 0, Wait_step, Wait_step]) sys0)
    = Some \<lparr>o_waiter = Returned 0, o_live = 4294967296, o_count = 0, o_val = 0, o_post = 0,
        o_wait = 0\<rparr>"
    using wait_after_wrap [of "replicate 4294967296 (Parallel_sb_params 0 add_all [1, 2, 3])"
        "Call_wait 0"]
    by simp
  show "map_option (observe 0)
      (exec (late (Call_wait 0) (Parallel_sb_params 0 add_all [1, 2, 3])) sys0)
    = Some \<lparr>o_waiter = Returned 0, o_live = 1, o_count = 0, o_val = 0, o_post = 1,
        o_wait = 1\<rparr>"
    by (simp add: demo_defs demo3_defs submit_defs run_defs)
qed

lemma held_member:
  "waiting_on a (waiter s) \<or> live a s = 0 \<Longrightarrow>
   \<forall>t \<in> set (pool s). bound_to a t \<longrightarrow> waiting_on a (waiter s)"
proof (intro ballI impI)
  fix t
  assume h: "waiting_on a (waiter s) \<or> live a s = 0" and t: "t \<in> set (pool s)" "bound_to a t"
  from live_member [OF t] h show "waiting_on a (waiter s)" by simp
qed

lemma after_submission:
  assumes "acct a s1" "orderly a evs1 s1" "\<forall>e \<in> set evs2. \<not> registers a e"
    "exec (evs1 @ Call_wait a # evs2) s1 = Some s'"
  shows "\<forall>t \<in> set (pool s'). bound_to a t \<longrightarrow> waiting_on a (waiter s')"
proof -
  from assms(4) obtain s2 s3 where s2: "exec evs1 s1 = Some s2"
    and s3: "step (Call_wait a) s2 = Some s3" and r: "exec evs2 s3 = Some s'"
    by (auto simp: exec_append split: option.splits)
  from exec_orderly [OF assms(2,1) s2] have "acct a s2" .
  from call_held [OF this s3 _ assms(3) r]
  have "waiting_on a (waiter s') \<or> live a s' = 0" by simp
  then show ?thesis by (rule held_member)
qed

section \<open>Tracked submissions and later waits\<close>

text \<open>
  C10 (amended). The constructor of either tracked task class performs exactly the store
  change of one \<^verbatim>\<open>register_lock\<close> and keeps the token that call returned. A tracked
  submission is that construction followed by \<^verbatim>\<open>spawn\<close>, which does not touch the store;
  when it returns, the counter of the barrier is one higher (in 32-bit arithmetic) and
  the pool holds one more token of the barrier. An untracked submission leaves the
  whole store as it was. If at a tracked submission no wait on the barrier is in
  progress, its accounting holds and its counter is not at its maximum, then the
  accounting holds after it; and if every later registration on the barrier happens
  before a later call of \<^verbatim>\<open>wait_for_all\<close> on it, while no wait on the barrier is in
  progress and the counter is not at its maximum, then that call has not returned as
  long as the pool holds a task with a token of the barrier.
\<close>

theorem tracked_submission_registers_first:
  "snd (contended_caller_ctor sb func h) = snd (register_lock sb h)
   \<and> task_sw (fst (contended_caller_ctor sb func h)) = Some (fst (register_lock sb h))
   \<and> snd (forwarded_callable_sw_ctor sb f params h) = snd (register_lock sb h)
   \<and> task_sw (fst (forwarded_callable_sw_ctor sb f params h)) = Some (fst (register_lock sb h))
   \<and> parallel_sb sb func s
       = spawn (fst (contended_caller_ctor sb func (store s)))
           (s\<lparr>store := snd (contended_caller_ctor sb func (store s))\<rparr>)
   \<and> parallel_sb_params sb f params s
       = spawn (fst (forwarded_callable_sw_ctor sb f params (store s)))
           (s\<lparr>store := snd (forwarded_callable_sw_ctor sb f params (store s))\<rparr>)
   \<and> store (spawn t s) = store s
   \<and> m_count (store (parallel_sb sb func s) sb) = m_count (store s sb) + 1
   \<and> m_count (store (parallel_sb_params sb f params s) sb) = m_count (store s sb) + 1
   \<and> live sb (parallel_sb sb func s) = Suc (live sb s)
   \<and> live sb (parallel_sb_params sb f params s) = Suc (live sb s)
   \<and> store (parallel func s) = store s
   \<and> store (parallel_params f params s) = store s
   \<and> (acct sb s \<and> \<not> waiting_on sb (waiter s) \<and> m_count (store s sb) \<noteq> - 1
        \<and> (s1 = parallel_sb sb func s \<or> s1 = parallel_sb_params sb f params s)
        \<and> orderly sb evs1 s1 \<and> (\<forall>e \<in> set evs2. \<not> registers sb e)
        \<and> exec (evs1 @ Call_wait sb # evs2) s1 = Some s'
      \<longrightarrow> acct sb s1
          \<and> (\<forall>t \<in> set (pool s'). bound_to sb t \<longrightarrow> waiting_on sb (waiter s')))"
proof -
  have A: "acct sb s1 \<and> (\<forall>t \<in> set (pool s'). bound_to sb t \<longrightarrow> waiting_on sb (waiter s'))"
    if h: "acct sb s" "\<not> waiting_on sb (waiter s)" "m_count (store s sb) \<noteq> - 1"
      and c: "s1 = parallel_sb sb func s \<or> s1 = parallel_sb_params sb f params s"
      and o: "orderly sb evs1 s1" and n: "\<forall>e \<in> set evs2. \<not> registers sb e"
      and e: "exec (evs1 @ Call_wait sb # evs2) s1 = Some s'"
  proof -
    have a1: "acct sb s1"
      using c
    proof
      assume "s1 = parallel_sb sb func s"
      then show ?thesis
        using acct_register [OF h, of s1] by (simp add: submit_defs live_def bound_to_def)
    next
      assume "s1 = parallel_sb_params sb f params s"
      then show ?thesis
        using acct_register [OF h, of s1] by (simp add: submit_defs live_def bound_to_def)
    qed
    from after_submission [OF a1 o n e] a1 show ?thesis by simp
  qed
  have B: "snd (contended_caller_ctor sb func h) = snd (register_lock sb h)
   \<and> task_sw (fst (contended_caller_ctor sb func h)) = Some (fst (register_lock sb h))
   \<and> snd (forwarded_callable_sw_ctor sb f params h) = snd (register_lock sb h)
   \<and> task_sw (fst (forwarded_callable_sw_ctor sb f params h)) = Some (fst (register_lock sb h))"
    by (simp add: contended_caller_ctor_def forwarded_callable_sw_ctor_def split: prod.splits)
  have C: "parallel_sb sb func s
       = spawn (fst (contended_caller_ctor sb func (store s)))
           (s\<lparr>store := snd (contended_caller_ctor sb func (store s))\<rparr>)
   \<and> parallel_sb_params sb f params s
       = spawn (fst (forwarded_callable_sw_ctor sb f params (store s)))
           (s\<lparr>store := snd (forwarded_callable_sw_ctor sb f params (store s))\<rparr>)
   \<and> store (spawn t s) = store s"
    by (simp add: parallel_sb_def parallel_sb_params_def spawn_def split: prod.splits)
  have D: "m_count (store (parallel_sb sb func s) sb) = m_count (store s sb) + 1
   \<and> m_count (store (parallel_sb_params sb f params s) sb) = m_count (store s sb) + 1
   \<and> live sb (parallel_sb sb func s) = Suc (live sb s)
   \<and> live sb (parallel_sb_params sb f params s) = Suc (live sb s)
   \<and> store (parallel func s) = store s
   \<and> store (parallel_params f params s) = store s"
    by (simp add: submit_defs live_def bound_to_def)
  from A B C D show ?thesis by blast
qed

text \<open>
  A tracked submission on the fresh barrier at 0, a second one that is run, and a wait:
  the wait is blocked while the first task is in the pool.
\<close>

theorem tracked_submission_registers_first_witness:
  "map_option (observe 0)
     (exec ([Parallel_sb 0 boom, Run 1] @ Call_wait 0 # [Wait_step, Wait_step, Wait_step])
        (parallel_sb 0 tick sys0))
     = Some \<lparr>o_waiter = In_sem_wait 0 1, o_live = 1, o_count = 2, o_val = 0, o_post = 1,
         o_wait = 1\<rparr>
   \<and> map_option (waiting_on 0 \<circ> waiter)
     (exec ([Parallel_sb 0 boom, Run 1] @ Call_wait 0 # [Wait_step, Wait_step, Wait_step])
        (parallel_sb 0 tick sys0))
     = Some True"
proof -
  let ?s1 = "parallel_sb 0 tick sys0"
  let ?evs1 = "[Parallel_sb 0 boom, Run 1] :: (nat, nat) event list"
  let ?evs2 = "[Wait_step, Wait_step, Wait_step] :: (nat, nat) event list"
  have "\<exists>s'. exec (?evs1 @ Call_wait 0 # ?evs2) ?s1 = Some s'
      \<and> observe 0 s' = \<lparr>o_waiter = In_sem_wait 0 1, o_live = 1, o_count = 2, o_val = 0,
          o_post = 1, o_wait = 1\<rparr>
      \<and> (\<exists>t \<in> set (pool s'). bound_to 0 t)"
    by (simp add: demo_defs submit_defs run_defs)
  then obtain s' t where e: "exec (?evs1 @ Call_wait 0 # ?evs2) ?s1 = Some s'"
    and o: "observe 0 s' = \<lparr>o_waiter = In_sem_wait 0 1, o_live = 1, o_count = 2, o_val = 0,
          o_post = 1, o_wait = 1\<rparr>"
    and t: "t \<in> set (pool s')" "bound_to 0 t"
    by blast
  have h: "acct 0 sys0 \<and> \<not> waiting_on 0 (waiter sys0) \<and> m_count (store sys0 0) \<noteq> - 1"
    by (simp add: acct_def Let_def waiting_on_def demo_defs)
  have ho: "orderly 0 ?evs1 ?s1"
    by (simp add: waiting_on_def demo_defs submit_defs run_defs)
  have hn: "\<forall>e \<in> set ?evs2. \<not> registers 0 e" by simp
  from tracked_submission_registers_first [of 0 tick _ _ _ sys0 _ ?s1 ?evs1 ?evs2 s'] h ho hn e
  have "\<forall>t \<in> set (pool s'). bound_to 0 t \<longrightarrow> waiting_on 0 (waiter s')" by blast
  with t have "waiting_on 0 (waiter s')" by blast
  with e o show ?thesis by simp
qed

lemma before_wrap:
  "map_option (observe 0) (exec (replicate n (Parallel_sb 0 tick)) sys0)
   = Some \<lparr>o_waiter = Idle, o_live = n, o_count = of_nat n, o_val = 0, o_post = 0, o_wait = 0\<rparr>"
proof -
  let ?regs = "replicate n (Parallel_sb 0 tick) :: (nat, nat) event list"
  have "\<forall>e \<in> set ?regs. registers 0 e" by simp
  from exec_registers [OF this, of sys0] obtain s1 where s1: "exec ?regs sys0 = Some s1"
    and st: "store s1 0
      = (store sys0 0)\<lparr>m_count := m_count (store sys0 0) + of_nat (length ?regs)\<rparr>"
    and l: "live 0 s1 = live 0 sys0 + length ?regs" and w: "waiter s1 = waiter sys0"
    by blast
  then show ?thesis
    by (simp add: observe_def sys0_def synched_t_ctor_def sem_init_def live_def)
qed

text \<open>
  With the counter at \<open>2 ^ 32 - 1\<close> a tracked submission wraps it to zero, and a wait
  started afterwards returns at once with the task alive. A task submitted between
  the last loop test and the reset of a wait in progress is missed by a wait started
  after the submission. And once the counter has lost that registration, a further
  tracked task, submitted while no wait is in progress, is missed as well: the wait
  started after it returns on the signal of the older task.
\<close>

theorem tracked_submission_missed_counterexample:
  "map_option (observe 0) (exec (replicate 4294967295 (Parallel_sb 0 tick)) sys0)
     = Some \<lparr>o_waiter = Idle, o_live = 4294967295, o_count = 4294967295, o_val = 0, o_post = 0,
         o_wait = 0\<rparr>
   \<and> map_option (observe 0)
       (exec ((replicate 4294967295 (Parallel_sb 0 tick) @ [Parallel_sb_params 0 add_all [1, 2, 3]])
              @ [Call_wait 0, Wait_step, Wait_step]) sys0)
     = Some \<lparr>o_waiter = Returned 0, o_live = 4294967296, o_count = 0, o_val = 0, o_post = 0,
         o_wait = 0\<rparr>
   \<and> map_option (observe 0)
       (exec (late (Call_wait 0) (Parallel_sb 0 tick) @ [Call_wait 0, Wait_step, Wait_step]) sys0)
     = Some \<lparr>o_waiter = Returned 0, o_live = 1, o_count = 0, o_val = 0, o_post = 1,
         o_wait = 1\<rparr>
   \<and> map_option (observe 0)
       (exec (late (Call_wait 0) (Parallel_sb 0 tick)
              @ [Parallel_sb 0 boom, Call_wait 0, Wait_step, Run 0, Wait_step, Wait_step,
                 Wait_step]) sys0)
     = Some \<lparr>o_waiter = Returned 0, o_live = 1, o_count = 0, o_val = 0, o_post = 2,
         o_wait = 2\<rparr>"
proof (intro conjI)
  show "map_option (observe 0) (exec (replicate 4294967295 (Parallel_sb 0 tick)) sys0)
     = Some \<lparr>o_waiter = Idle, o_live = 4294967295, o_count = 4294967295, o_val = 0, o_post = 0,
         o_wait = 0\<rparr>"
    using before_wrap [of 4294967295] by simp
  show "map_option (observe 0)
       (exec ((replicate 4294967295 (Parallel_sb 0 tick) @ [Parallel_sb_params 0 add_all [1, 2, 3]])
              @ [Call_wait 0, Wait_step, Wait_step]) sys0)
     = Some \<lparr>o_waiter = Returned 0, o_live = 4294967296, o_count = 0, o_val = 0, o_post = 0,
         o_wait = 0\<rparr>"
    using wait_after_wrap [of "replicate 4294967295 (Parallel_sb 0 tick)
        @ [Parallel_sb_params 0 add_all [1, 2, 3]]" "Call_wait 0"]
    by simp
  show "map_option (observe 0)
       (exec (late (Call_wait 0) (Parallel_sb 0 tick) @ [Call_wait 0, Wait_step, Wait_step]) sys0)
     = Some \<lparr>o_waiter = Returned 0, o_live = 1, o_count = 0, o_val = 0, o_post = 1,
         o_wait = 1\<rparr>"
    by (simp add: demo_defs demo3_defs submit_defs run_defs)
  show "map_option (observe 0)
       (exec (late (Call_wait 0) (Parallel_sb 0 tick)
              @ [Parallel_sb 0 boom, Call_wait 0, Wait_step, Run 0, Wait_step, Wait_step,
                 Wait_step]) sys0)
     = Some \<lparr>o_waiter = Returned 0, o_live = 1, o_count = 0, o_val = 0, o_post = 2,
         o_wait = 2\<rparr>"
    by (simp add: demo_defs demo3_defs submit_defs run_defs)
qed

end
